theory Spec2Isabelle
  imports Complex_Main "HOL-Library.AList"
begin

section \<open>Data model (types.ts, calculations.ts)\<close>

text \<open>
  JavaScript numbers are modelled as exact rationals: rounding, \<open>NaN\<close> and signed zero are
  outside the model. So is the division by a rate of zero, which gives \<open>Infinity\<close> or
  \<open>NaN\<close> in JavaScript (and \<open>0\<close> in HOL): the statements about the amounts that
  demand resolution computes assume output rates other than zero (\<open>ratesNonzero\<close>).
  The literal \<open>Infinity\<close>, which the optimizers use as the start value of
  a running minimum, is modelled where it occurs by the type \<open>jsnum\<close>.
  Integer-valued parameters (cluster count, population size, attempt and generation
  counts) are modelled as \<open>int\<close>.
  Optional fields of an interface (\<open>f?: T\<close>) are \<open>option\<close> values, \<open>None\<close> being
  \<open>undefined\<close>. Field names that clash with HOL names carry a one-letter suffix.
\<close>

record ItemRate =
  idI :: string
  amount_per_minute :: rat

record Recipe =
  outputR :: ItemRate
  inputs :: "ItemRate list"

text \<open>Of a building only the fields read by the computational core are kept.\<close>

record Building =
  idB :: string
  nameB :: string
  recipes :: "Recipe list option"

type_synonym Buildings = "Building list"

record Target =
  idT :: string
  amount :: rat

record SankeyNode =
  name :: string
  category :: "string option"
  machineName :: "string option"
  outputPerMachine :: "rat option"
  requiredAmount :: "rat option"

record SankeyLink =
  source :: string
  target :: string
  valueL :: rat

record SankeyData =
  nodes :: "SankeyNode list"
  links :: "SankeyLink list"

section \<open>Demand resolution (calculateRequirements)\<close>

text \<open>
  The two accumulators of \<open>calculateRequirements\<close> are JavaScript \<open>Map\<close>s, which keep
  insertion order: \<open>set\<close> on a present key replaces the value in place, on a new key it
  appends. This is \<open>AList.update\<close> on an association list; \<open>get\<close> is \<open>map_of\<close>.
\<close>

record ResolverState =
  nodesMap :: "(string \<times> SankeyNode) list"
  linksMap :: "(string \<times> rat) list"

fun findInRecipes :: "Recipe list \<Rightarrow> string \<Rightarrow> Recipe option" where
  "findInRecipes [] itemId = None"
| "findInRecipes (r # rs) itemId =
     (if idI (outputR r) = itemId then Some r else findInRecipes rs itemId)"

text \<open>The result triple is (recipe, buildingId, buildingName); \<open>None\<close> is \<open>null\<close>.\<close>

fun findRecipe :: "Buildings \<Rightarrow> string \<Rightarrow> (Recipe \<times> string \<times> string) option" where
  "findRecipe [] itemId = None"
| "findRecipe (b # bs) itemId =
     (case recipes b of
        None \<Rightarrow> findRecipe bs itemId
      | Some rs \<Rightarrow>
          (case findInRecipes rs itemId of
             Some r \<Rightarrow> Some (r, idB b, nameB b)
           | None \<Rightarrow> findRecipe bs itemId))"

text \<open>\<open>linksMap.get(linkKey) || 0\<close>: \<open>undefined\<close> and \<open>0\<close> are falsy.\<close>

definition orZero :: "rat option \<Rightarrow> rat" where
  "orZero v = (case v of None \<Rightarrow> 0 | Some r \<Rightarrow> (if r = 0 then 0 else r))"

definition linkKey :: "string \<Rightarrow> string \<Rightarrow> string" where
  "linkKey inputId itemId = inputId @ ''|'' @ itemId"

text \<open>\<open>array.forEach\<close> with a callback that may fail to return.\<close>

fun forEachM :: "('a \<Rightarrow> 's \<Rightarrow> 's option) \<Rightarrow> 'a list \<Rightarrow> 's \<Rightarrow> 's option" where
  "forEachM f [] st = Some st"
| "forEachM f (x # xs) st = (case f x st of None \<Rightarrow> None | Some st' \<Rightarrow> forEachM f xs st')"

text \<open>The body of the callback of \<open>recipe.inputs.forEach\<close>; \<open>trav\<close> is the recursive call.\<close>

definition visitInput ::
  "(string \<Rightarrow> rat \<Rightarrow> ResolverState \<Rightarrow> ResolverState option) \<Rightarrow> string \<Rightarrow> rat \<Rightarrow>
   ItemRate \<Rightarrow> ResolverState \<Rightarrow> ResolverState option" where
  "visitInput trav itemId ratio input st =
     (let inputAmount = amount_per_minute input * ratio;
          key = linkKey (idI input) itemId;
          st1 = st\<lparr>linksMap :=
                  AList.update key (orZero (map_of (linksMap st) key) + inputAmount) (linksMap st)\<rparr>
      in trav (idI input) inputAmount st1)"

definition newNode :: "string \<Rightarrow> (Recipe \<times> string \<times> string) option \<Rightarrow> SankeyNode" where
  "newNode itemId result =
     \<lparr>name = itemId,
      category = Some (case result of Some (r, bId, bName) \<Rightarrow> bId | None \<Rightarrow> ''raw''),
      machineName = Some (case result of Some (r, bId, bName) \<Rightarrow> bName | None \<Rightarrow> ''Source''),
      outputPerMachine =
        (case result of Some (r, bId, bName) \<Rightarrow> Some (amount_per_minute (outputR r)) | None \<Rightarrow> None),
      requiredAmount = Some 0\<rparr>"

definition accumulate :: "rat \<Rightarrow> SankeyNode \<Rightarrow> SankeyNode" where
  "accumulate amt node =
     (case requiredAmount node of
        Some r \<Rightarrow> node\<lparr>requiredAmount := Some (r + amt)\<rparr>
      | None \<Rightarrow> node)"

text \<open>
  \<open>traverse\<close> has no cycle guard, so it need not return. The first argument bounds the
  depth of the recursion; \<open>None\<close> says that the bound was reached.
\<close>

fun traverse ::
  "nat \<Rightarrow> Buildings \<Rightarrow> string \<Rightarrow> rat \<Rightarrow> ResolverState \<Rightarrow> ResolverState option" where
  "traverse 0 buildings itemId amt st = None"
| "traverse (Suc depth) buildings itemId amt st =
     (let result = findRecipe buildings itemId;
          node = (case map_of (nodesMap st) itemId of
                    Some nd \<Rightarrow> nd
                  | None \<Rightarrow> newNode itemId result);
          st1 = st\<lparr>nodesMap := AList.update itemId (accumulate amt node) (nodesMap st)\<rparr>
      in case result of
           None \<Rightarrow> Some st1
         | Some (recipe, bId, bName) \<Rightarrow>
             forEachM
               (visitInput (traverse depth buildings) itemId
                  (amt / amount_per_minute (outputR recipe)))
               (inputs recipe) st1)"

text \<open>
  \<open>key.split('|')\<close>: the pieces between the occurrences of the separator, at least one.
\<close>

fun split :: "char \<Rightarrow> string \<Rightarrow> string list" where
  "split c [] = [[]]"
| "split c (x # xs) =
     (if x = c then [] # split c xs
      else (let ps = split c xs in (x # hd ps) # tl ps))"

text \<open>
  \<open>const [source, target] = key.split('|')\<close>. Every key is built by \<open>linkKey\<close> and so has
  at least two pieces; the last two cases are there for totality only.
\<close>

definition linkOfEntry :: "string \<times> rat \<Rightarrow> SankeyLink" where
  "linkOfEntry e =
     (case split CHR ''|'' (fst e) of
        s # t # rest \<Rightarrow> \<lparr>source = s, target = t, valueL = snd e\<rparr>
      | [s] \<Rightarrow> \<lparr>source = s, target = [], valueL = snd e\<rparr>
      | [] \<Rightarrow> \<lparr>source = [], target = [], valueL = snd e\<rparr>)"

definition emptyState :: ResolverState where
  "emptyState = \<lparr>nodesMap = [], linksMap = []\<rparr>"

definition resolveTargets :: "nat \<Rightarrow> Buildings \<Rightarrow> Target list \<Rightarrow> ResolverState option" where
  "resolveTargets depth buildings targets =
     forEachM (\<lambda>t. traverse depth buildings (idT t) (amount t)) targets emptyState"

definition calculateRequirements :: "nat \<Rightarrow> Buildings \<Rightarrow> Target list \<Rightarrow> SankeyData option" where
  "calculateRequirements depth buildings targets =
     (case resolveTargets depth buildings targets of
        None \<Rightarrow> None
      | Some st \<Rightarrow>
          Some \<lparr>nodes = map snd (nodesMap st), links = map linkOfEntry (linksMap st)\<rparr>)"

text \<open>
  The recipe dependency relation: the pair \<open>(inputId, itemId)\<close> says that \<open>inputId\<close> is an
  input of the first recipe found for \<open>itemId\<close>.
\<close>

definition dependsOn :: "Buildings \<Rightarrow> (string \<times> string) set" where
  "dependsOn buildings =
     {(inputId, itemId). \<exists>r bId bName.
        findRecipe buildings itemId = Some (r, bId, bName) \<and> inputId \<in> idI ` set (inputs r)}"


definition allRecipes :: "Buildings \<Rightarrow> Recipe list" where
  "allRecipes buildings =
     concat (map (\<lambda>b. case recipes b of None \<Rightarrow> [] | Some rs \<Rightarrow> rs) buildings)"

text \<open>
  The example of the specification: the building \<open>smelter\<close> turns one \<open>ore\<close> per minute
  into one \<open>bar\<close> per minute, and ten bars per minute are asked for.
\<close>

definition smelterCatalog :: Buildings where
  "smelterCatalog =
     [\<lparr>idB = ''smelter'', nameB = ''Smelter'',
       recipes = Some [\<lparr>outputR = \<lparr>idI = ''bar'', amount_per_minute = 1\<rparr>,
                        inputs = [\<lparr>idI = ''ore'', amount_per_minute = 1\<rparr>]\<rparr>]\<rparr>]"

definition tenBars :: "Target list" where
  "tenBars = [\<lparr>idT = ''bar'', amount = 10\<rparr>]"

text \<open>What the example returns, as a function of the rate asked for.\<close>

definition barNode :: "rat \<Rightarrow> SankeyNode" where
  "barNode r =
     \<lparr>name = ''bar'', category = Some ''smelter'', machineName = Some ''Smelter'',
      outputPerMachine = Some 1, requiredAmount = Some r\<rparr>"

definition oreNode :: "rat \<Rightarrow> SankeyNode" where
  "oreNode r =
     \<lparr>name = ''ore'', category = Some ''raw'', machineName = Some ''Source'',
      outputPerMachine = None, requiredAmount = Some r\<rparr>"

definition smelterResultFor :: "rat \<Rightarrow> SankeyData" where
  "smelterResultFor r =
     \<lparr>nodes = [barNode r, oreNode r],
      links = [\<lparr>source = ''ore'', target = ''bar'', valueL = r\<rparr>]\<rparr>"

text \<open>A catalog with an item id that contains the separator of the link keys.\<close>

definition pipeCatalog :: Buildings where
  "pipeCatalog =
     [\<lparr>idB = ''assembler'', nameB = ''Assembler'',
       recipes = Some [\<lparr>outputR = \<lparr>idI = ''c'', amount_per_minute = 1\<rparr>,
                        inputs = [\<lparr>idI = ''a|b'', amount_per_minute = 1\<rparr>]\<rparr>]\<rparr>]"

definition pipeResult :: SankeyData where
  "pipeResult =
     \<lparr>nodes =
        [\<lparr>name = ''c'', category = Some ''assembler'', machineName = Some ''Assembler'',
          outputPerMachine = Some 1, requiredAmount = Some 10\<rparr>,
         \<lparr>name = ''a|b'', category = Some ''raw'', machineName = Some ''Source'',
          outputPerMachine = None, requiredAmount = Some 10\<rparr>],
      links = [\<lparr>source = ''a'', target = ''b'', valueL = 10\<rparr>]\<rparr>"

section \<open>Shared types of the optimizers (types.ts)\<close>

text \<open>
  A \<open>MachineNode\<close> carries the fields of a \<open>SankeyNode\<close> and more. The bookkeeping fields
  that only d3-force reads (\<open>vx\<close>, \<open>vy\<close>, \<open>fx\<close>, \<open>fy\<close>, \<open>index\<close>) are left out.
  Inside the core a \<open>MachineLink\<close> always has strings at both ends, so it is a \<open>SankeyLink\<close>.
\<close>

record MachineNode = SankeyNode +
  idM :: string
  xM :: "rat option"
  yM :: "rat option"
  buildingId :: "string option"
  recipeOutputId :: "string option"
  clusterId :: "int option"

type_synonym MachineLink = SankeyLink

record Stats =
  totalCrossFlow :: rat

record OptimizerResult =
  nodesR :: "MachineNode list"
  linksR :: "MachineLink list"
  clusters :: "(int \<times> MachineNode list) list"
  stats :: "Stats option"

text \<open>
  What a call can end in other than a result. An exception thrown inside the executor of
  the returned promise rejects the promise. \<open>RecursionLimit\<close> stands for a demand
  resolution that did not return within the depth bound.
\<close>

datatype error = OptimizationFailed | TypeError | RangeError | RecursionLimit

text \<open>A number or \<open>Infinity\<close>, with the comparison \<open>a < b\<close>.\<close>

datatype jsnum = Num rat | Infinity

fun lessJ :: "jsnum \<Rightarrow> jsnum \<Rightarrow> bool" where
  "lessJ (Num a) (Num b) = (a < b)"
| "lessJ (Num a) Infinity = True"
| "lessJ Infinity b = False"

text \<open>The two \<open>map\<close> calls at the head of both optimizers.\<close>

definition toMachineNode :: "SankeyNode \<Rightarrow> MachineNode" where
  "toMachineNode n =
     \<lparr>name = name n, category = category n, machineName = machineName n,
      outputPerMachine = outputPerMachine n, requiredAmount = requiredAmount n,
      idM = name n, xM = None, yM = None, buildingId = category n,
      recipeOutputId = Some (name n), clusterId = None\<rparr>"

definition toMachineLink :: "SankeyLink \<Rightarrow> MachineLink" where
  "toMachineLink l = \<lparr>source = source l, target = target l, valueL = valueL l\<rparr>"

text \<open>
  \<open>new Map(entries)\<close>: a later entry for the same key replaces an earlier one.
  \<open>Map.get\<close> on a map whose values may be \<open>undefined\<close> gives \<open>undefined\<close> in both cases.
\<close>

definition mapOfEntries :: "('k \<times> 'v) list \<Rightarrow> 'k \<Rightarrow> 'v option" where
  "mapOfEntries es = map_of (rev es)"

definition getOpt :: "('k \<Rightarrow> 'v option option) \<Rightarrow> 'k \<Rightarrow> 'v option" where
  "getOpt m k = (case m k of None \<Rightarrow> None | Some v \<Rightarrow> v)"

text \<open>Grouping the nodes by cluster id (the construction of \<open>clusters\<close>).\<close>

definition pushToCluster ::
  "MachineNode \<Rightarrow> (int \<times> MachineNode list) list \<Rightarrow> (int \<times> MachineNode list) list" where
  "pushToCluster n cl =
     (case clusterId n of
        None \<Rightarrow> cl
      | Some c \<Rightarrow>
          AList.update c ((case map_of cl c of None \<Rightarrow> [] | Some ns \<Rightarrow> ns) @ [n]) cl)"

definition groupByCluster :: "MachineNode list \<Rightarrow> (int \<times> MachineNode list) list" where
  "groupByCluster ns = fold pushToCluster ns []"

section \<open>Evolutionary search (geneticOptimizer.ts)\<close>

record Weights =
  constraintsW :: rat
  splitW :: rat
  balanceW :: rat
  transportW :: rat

record GAParams =
  populationSize :: int
  generations :: int
  mutationRate :: rat
  numClusters :: int
  weights :: Weights
  constraints :: "(string \<times> string) list"
  splitConstraints :: "(string \<times> string) list"
  minClusterSize :: rat
  maxClusterSize :: rat

text \<open>
  An individual is an array of cluster ids. Reading an array past its end gives
  \<open>undefined\<close>, and \<open>crossover\<close> can store what it read, so a gene is an \<open>int option\<close>.
\<close>

type_synonym individual = "int option list"

definition gene :: "individual \<Rightarrow> nat \<Rightarrow> int option" where
  "gene ind i = (if i < length ind then ind ! i else None)"

text \<open>
  \<open>Math.random\<close> is an unseeded source of numbers. It is modelled as a stream that the
  computation reads from the front; the theorems quantify over the stream.
\<close>

type_synonym rng = "nat \<Rightarrow> rat"

definition rest :: "rng \<Rightarrow> rng" where
  "rest g = (\<lambda>i. g (Suc i))"

definition validRng :: "rng \<Rightarrow> bool" where
  "validRng g = (\<forall>i. 0 \<le> g i \<and> g i < 1)"

text \<open>\<open>Math.floor(Math.random() * n)\<close>\<close>

definition randomBelow :: "int \<Rightarrow> rng \<Rightarrow> int" where
  "randomBelow n g = \<lfloor>g 0 * of_int n\<rfloor>"

subsection \<open>initialize\<close>

fun randomIndividual :: "int \<Rightarrow> 'a list \<Rightarrow> rng \<Rightarrow> individual \<times> rng" where
  "randomIndividual k [] g = ([], g)"
| "randomIndividual k (n # ns) g =
     (let c = randomBelow k g;
          (cs, g') = randomIndividual k ns (rest g)
      in (Some c # cs, g'))"

fun initializeLoop :: "nat \<Rightarrow> GAParams \<Rightarrow> MachineNode list \<Rightarrow> rng \<Rightarrow> individual list \<times> rng" where
  "initializeLoop 0 params ns g = ([], g)"
| "initializeLoop (Suc i) params ns g =
     (let (ind, g1) = randomIndividual (numClusters params) ns g;
          (pop, g2) = initializeLoop i params ns g1
      in (ind # pop, g2))"

definition initialize :: "GAParams \<Rightarrow> MachineNode list \<Rightarrow> rng \<Rightarrow> individual list \<times> rng" where
  "initialize params ns g = initializeLoop (nat (populationSize params)) params ns g"

subsection \<open>calculateFitness\<close>

definition nodeIndexMap :: "MachineNode list \<Rightarrow> string \<Rightarrow> nat option" where
  "nodeIndexMap ns = mapOfEntries (zip (map idM ns) [0..<length ns])"

text \<open>\<open>findIndex\<close>, with \<open>None\<close> for \<open>-1\<close>.\<close>

fun findIndex :: "('a \<Rightarrow> bool) \<Rightarrow> 'a list \<Rightarrow> nat option" where
  "findIndex P [] = None"
| "findIndex P (a # as) = (if P a then Some 0 else map_option Suc (findIndex P as))"

definition transportStep ::
  "MachineNode list \<Rightarrow> individual \<Rightarrow> rat \<Rightarrow> MachineLink \<Rightarrow> rat \<Rightarrow> rat" where
  "transportStep ns ind w link score =
     (case (nodeIndexMap ns (source link), nodeIndexMap ns (target link)) of
        (Some sIdx, Some tIdx) \<Rightarrow>
          (if gene ind sIdx \<noteq> gene ind tIdx then score + valueL link * w else score)
      | _ \<Rightarrow> score)"

definition constraintStep ::
  "MachineNode list \<Rightarrow> individual \<Rightarrow> rat \<Rightarrow> string \<times> string \<Rightarrow> rat \<Rightarrow> rat" where
  "constraintStep ns ind w pair score =
     (case (findIndex (\<lambda>n. name n = fst pair) ns, findIndex (\<lambda>n. name n = snd pair) ns) of
        (Some idxA, Some idxB) \<Rightarrow>
          (if gene ind idxA \<noteq> gene ind idxB then score + w else score)
      | _ \<Rightarrow> score)"

definition splitStep ::
  "MachineNode list \<Rightarrow> individual \<Rightarrow> rat \<Rightarrow> string \<times> string \<Rightarrow> rat \<Rightarrow> rat" where
  "splitStep ns ind w pair score =
     (case (findIndex (\<lambda>n. name n = fst pair) ns, findIndex (\<lambda>n. name n = snd pair) ns) of
        (Some idxA, Some idxB) \<Rightarrow>
          (if gene ind idxA = gene ind idxB then score + w else score)
      | _ \<Rightarrow> score)"

text \<open>
  \<open>clusterCounts[c]++\<close>: a write outside the array (or under the key \<open>undefined\<close>) creates
  a \<open>NaN\<close> entry, which the two passes over \<open>clusterCounts\<close> below never count.
\<close>

definition bumpCount :: "int option \<Rightarrow> nat list \<Rightarrow> nat list" where
  "bumpCount c counts =
     (case c of
        None \<Rightarrow> counts
      | Some j \<Rightarrow>
          (if 0 \<le> j \<and> nat j < length counts then counts[nat j := counts ! nat j + 1]
           else counts))"

definition sizeStep :: "GAParams \<Rightarrow> nat \<Rightarrow> rat \<Rightarrow> rat" where
  "sizeStep params cnt score =
     (if cnt > 0 then
        (let s1 = (if of_nat cnt < minClusterSize params
                   then score + (minClusterSize params - of_nat cnt) * balanceW (weights params)
                   else score)
         in if of_nat cnt > maxClusterSize params
            then s1 + (of_nat cnt - maxClusterSize params) * balanceW (weights params)
            else s1)
      else score)"

text \<open>\<open>new Array(n)\<close> throws a \<open>RangeError\<close> unless \<open>n\<close> is an array length.\<close>

definition arrayLength :: "int \<Rightarrow> bool" where
  "arrayLength n = (0 \<le> n \<and> n \<le> 4294967295)"

definition calculateFitness ::
  "GAParams \<Rightarrow> MachineNode list \<Rightarrow> MachineLink list \<Rightarrow> individual \<Rightarrow> error + rat" where
  "calculateFitness params ns ls ind =
     (let score1 = fold (transportStep ns ind (transportW (weights params))) ls 0;
          score2 = fold (constraintStep ns ind (constraintsW (weights params)))
                     (constraints params) score1;
          score3 = fold (splitStep ns ind (splitW (weights params)))
                     (splitConstraints params) score2
      in if \<not> arrayLength (numClusters params) then Inl RangeError
         else
           (let clusterCounts = fold bumpCount ind (replicate (nat (numClusters params)) 0);
                score4 = fold (sizeStep params) clusterCounts score3;
                emptyClusters = length (filter (\<lambda>c. c = 0) clusterCounts)
            in Inr (score4 + of_nat emptyClusters * 500)))"

subsection \<open>evolve\<close>

text \<open>A computation that reads random numbers and may throw.\<close>

type_synonym 'a randomized = "rng \<Rightarrow> error + ('a \<times> rng)"

definition bindR :: "'a randomized \<Rightarrow> ('a \<Rightarrow> 'b randomized) \<Rightarrow> 'b randomized" where
  "bindR m f g = (case m g of Inl e \<Rightarrow> Inl e | Inr (a, g') \<Rightarrow> f a g')"

fun mapE :: "('a \<Rightarrow> error + 'b) \<Rightarrow> 'a list \<Rightarrow> error + 'b list" where
  "mapE f [] = Inr []"
| "mapE f (a # as) =
     (case f a of
        Inl e \<Rightarrow> Inl e
      | Inr b \<Rightarrow> (case mapE f as of Inl e \<Rightarrow> Inl e | Inr bs \<Rightarrow> Inr (b # bs)))"

text \<open>
  \<open>sortedPop[Math.floor(Math.random() * sortedPop.length)]\<close>. Outside the array the value
  is \<open>undefined\<close>, and \<open>tournamentSelect\<close> reads a field of every value it picks, which
  then throws a \<open>TypeError\<close>.
\<close>

definition pick :: "(individual \<times> rat) list \<Rightarrow> (individual \<times> rat) randomized" where
  "pick sortedPop g =
     (let i = randomBelow (int (length sortedPop)) g
      in if 0 \<le> i \<and> nat i < length sortedPop then Inr (sortedPop ! nat i, rest g)
         else Inl TypeError)"

fun tournamentRounds ::
  "nat \<Rightarrow> (individual \<times> rat) list \<Rightarrow> individual \<times> rat \<Rightarrow> (individual \<times> rat) randomized" where
  "tournamentRounds 0 sortedPop best g = Inr (best, g)"
| "tournamentRounds (Suc i) sortedPop best g =
     (case pick sortedPop g of
        Inl e \<Rightarrow> Inl e
      | Inr (candidate, g') \<Rightarrow>
          tournamentRounds i sortedPop (if snd candidate < snd best then candidate else best) g')"

definition tournamentSelect :: "(individual \<times> rat) list \<Rightarrow> individual randomized" where
  "tournamentSelect sortedPop =
     bindR (pick sortedPop) (\<lambda>best.
     bindR (tournamentRounds 3 sortedPop best) (\<lambda>best'.
     (\<lambda>g. Inr (fst best', g))))"

fun crossoverFrom :: "nat \<Rightarrow> individual \<Rightarrow> individual \<Rightarrow> rng \<Rightarrow> individual \<times> rng" where
  "crossoverFrom i [] parentB g = ([], g)"
| "crossoverFrom i (a # as) parentB g =
     (let c = (if g 0 < 1 / 2 then a else gene parentB i);
          (cs, g') = crossoverFrom (Suc i) as parentB (rest g)
      in (c # cs, g'))"

definition crossover :: "individual \<Rightarrow> individual \<Rightarrow> rng \<Rightarrow> individual \<times> rng" where
  "crossover parentA parentB g = crossoverFrom 0 parentA parentB g"

fun mutate :: "GAParams \<Rightarrow> individual \<Rightarrow> rng \<Rightarrow> individual \<times> rng" where
  "mutate params [] g = ([], g)"
| "mutate params (a # as) g =
     (if g 0 < mutationRate params then
        (let c = randomBelow (numClusters params) (rest g);
             (cs, g') = mutate params as (rest (rest g))
         in (Some c # cs, g'))
      else
        (let (cs, g') = mutate params as (rest g) in (a # cs, g')))"

text \<open>The \<open>while\<close> loop of \<open>evolve\<close>; the first argument is the number of children still missing.\<close>

fun breed ::
  "nat \<Rightarrow> GAParams \<Rightarrow> (individual \<times> rat) list \<Rightarrow> individual list \<Rightarrow> individual list randomized"
  where
  "breed 0 params sortedPop newPopulation g = Inr (newPopulation, g)"
| "breed (Suc i) params sortedPop newPopulation g =
     (case tournamentSelect sortedPop g of
        Inl e \<Rightarrow> Inl e
      | Inr (parentA, g1) \<Rightarrow>
          (case tournamentSelect sortedPop g1 of
             Inl e \<Rightarrow> Inl e
           | Inr (parentB, g2) \<Rightarrow>
               (let (child, g3) = crossover parentA parentB g2;
                    (child', g4) = mutate params child g3
                in breed i params sortedPop (newPopulation @ [child']) g4)))"

text \<open>
  \<open>sort\<close> is stable, as \<open>sort_key\<close> is. \<open>Math.floor(populationSize * 0.1)\<close> is
  \<open>populationSize div 10\<close> on integers.
\<close>

definition evolve ::
  "GAParams \<Rightarrow> MachineNode list \<Rightarrow> MachineLink list \<Rightarrow> individual list \<Rightarrow>
   individual list randomized" where
  "evolve params ns ls population g =
     (case mapE (calculateFitness params ns ls) population of
        Inl e \<Rightarrow> Inl e
      | Inr fits \<Rightarrow>
          (let sortedPop = sort_key snd (zip population fits);
               eliteCount = max 2 (populationSize params div 10);
               newPopulation = map fst (take (nat eliteCount) sortedPop)
           in breed (nat (populationSize params - int (length newPopulation)))
                params sortedPop newPopulation g))"

subsection \<open>getBestResult\<close>

record BestResult =
  individualB :: "individual option"
  fitnessB :: jsnum

fun bestLoop ::
  "GAParams \<Rightarrow> MachineNode list \<Rightarrow> MachineLink list \<Rightarrow> individual list \<Rightarrow> BestResult \<Rightarrow>
   error + BestResult" where
  "bestLoop params ns ls [] best = Inr best"
| "bestLoop params ns ls (ind # inds) best =
     (case calculateFitness params ns ls ind of
        Inl e \<Rightarrow> Inl e
      | Inr fit \<Rightarrow>
          bestLoop params ns ls inds
            (if lessJ (Num fit) (fitnessB best)
             then \<lparr>individualB = Some ind, fitnessB = Num fit\<rparr>
             else best))"

definition getBestResult ::
  "GAParams \<Rightarrow> MachineNode list \<Rightarrow> MachineLink list \<Rightarrow> individual list \<Rightarrow> error + BestResult"
  where
  "getBestResult params ns ls population =
     bestLoop params ns ls population
       \<lparr>individualB = (case population of [] \<Rightarrow> None | ind # inds \<Rightarrow> Some ind),
        fitnessB = Infinity\<rparr>"

subsection \<open>runGeneticOptimization\<close>

fun generationsLoop ::
  "nat \<Rightarrow> GAParams \<Rightarrow> MachineNode list \<Rightarrow> MachineLink list \<Rightarrow> individual list \<Rightarrow>
   individual list randomized" where
  "generationsLoop 0 params ns ls population g = Inr (population, g)"
| "generationsLoop (Suc i) params ns ls population g =
     (case evolve params ns ls population g of
        Inl e \<Rightarrow> Inl e
      | Inr (population', g') \<Rightarrow> generationsLoop i params ns ls population' g')"

definition runAttempt ::
  "GAParams \<Rightarrow> MachineNode list \<Rightarrow> MachineLink list \<Rightarrow> BestResult randomized" where
  "runAttempt params ns ls g =
     (let (population, g1) = initialize params ns g
      in case generationsLoop (nat (generations params)) params ns ls population g1 of
           Inl e \<Rightarrow> Inl e
         | Inr (population', g2) \<Rightarrow>
             (case getBestResult params ns ls population' of
                Inl e \<Rightarrow> Inl e
              | Inr res \<Rightarrow> Inr (res, g2)))"

fun attemptLoop ::
  "nat \<Rightarrow> GAParams \<Rightarrow> MachineNode list \<Rightarrow> MachineLink list \<Rightarrow> BestResult option \<Rightarrow>
   BestResult option randomized" where
  "attemptLoop 0 params ns ls bestResult g = Inr (bestResult, g)"
| "attemptLoop (Suc a) params ns ls bestResult g =
     (case runAttempt params ns ls g of
        Inl e \<Rightarrow> Inl e
      | Inr (res, g') \<Rightarrow>
          attemptLoop a params ns ls
            (case bestResult of
               None \<Rightarrow> Some res
             | Some b \<Rightarrow> (if lessJ (fitnessB res) (fitnessB b) then Some res else Some b))
            g')"

text \<open>
  \<open>nodes.forEach((n, i) => n.clusterId = individual[i])\<close>: with \<open>individual\<close> undefined the
  first node throws a \<open>TypeError\<close>; with no node nothing is read.
\<close>

definition assignClusters :: "individual option \<Rightarrow> MachineNode list \<Rightarrow> error + MachineNode list"
  where
  "assignClusters individual ns =
     (case individual of
        None \<Rightarrow> (if ns = [] then Inr [] else Inl TypeError)
      | Some ind \<Rightarrow>
          Inr (map (\<lambda>(n, i). n\<lparr>clusterId := gene ind i\<rparr>) (zip ns [0..<length ns])))"

definition crossFlowStep ::
  "MachineNode list \<Rightarrow> individual option \<Rightarrow> MachineLink \<Rightarrow> error + rat \<Rightarrow> error + rat" where
  "crossFlowStep ns individual link acc =
     (case acc of
        Inl e \<Rightarrow> Inl e
      | Inr flow \<Rightarrow>
          (case (nodeIndexMap ns (source link), nodeIndexMap ns (target link)) of
             (Some sIdx, Some tIdx) \<Rightarrow>
               (case individual of
                  None \<Rightarrow> Inl TypeError
                | Some ind \<Rightarrow>
                    (if gene ind sIdx \<noteq> gene ind tIdx then Inr (flow + valueL link)
                     else Inr flow))
           | _ \<Rightarrow> Inr flow))"

definition runGeneticOptimization ::
  "nat \<Rightarrow> Buildings \<Rightarrow> Target list \<Rightarrow> GAParams \<Rightarrow> int \<Rightarrow> rng \<Rightarrow> error + OptimizerResult" where
  "runGeneticOptimization depth buildings targets params attempts g =
     (case calculateRequirements depth buildings targets of
        None \<Rightarrow> Inl RecursionLimit
      | Some sankeyData \<Rightarrow>
          (let ns = map toMachineNode (nodes sankeyData);
               ls = map toMachineLink (links sankeyData)
           in case attemptLoop (nat attempts) params ns ls None g of
                Inl e \<Rightarrow> Inl e
              | Inr (bestResult, g') \<Rightarrow>
                  (case bestResult of
                     None \<Rightarrow> Inl OptimizationFailed
                   | Some best \<Rightarrow>
                       (case assignClusters (individualB best) ns of
                          Inl e \<Rightarrow> Inl e
                        | Inr ns' \<Rightarrow>
                            (case fold (crossFlowStep ns' (individualB best)) ls (Inr 0) of
                               Inl e \<Rightarrow> Inl e
                             | Inr flow \<Rightarrow>
                                 Inr \<lparr>nodesR = ns', linksR = ls,
                                      clusters = groupByCluster ns',
                                      stats = Some \<lparr>totalCrossFlow = flow\<rparr>\<rparr>)))))"

section \<open>Spatial clustering (optimizer.ts)\<close>

subsection \<open>The force-directed layout\<close>

record SimLink = SankeyLink +
  typeS :: "string option"

definition toSimLink :: "MachineLink \<Rightarrow> SimLink" where
  "toSimLink l = \<lparr>source = source l, target = target l, valueL = valueL l, typeS = None\<rparr>"

definition constraintLinks :: "MachineNode list \<Rightarrow> (string \<times> string) list \<Rightarrow> SimLink list" where
  "constraintLinks ns cs =
     map (\<lambda>(a, b). \<lparr>source = a, target = b, valueL = 1000, typeS = Some ''constraint''\<rparr>)
       (filter (\<lambda>(a, b). find (\<lambda>n. idM n = a) ns \<noteq> None \<and> find (\<lambda>n. idM n = b) ns \<noteq> None) cs)"

text \<open>
  The simulation itself is d3-force, a library outside the repository. It enters as a
  parameter \<open>layout\<close>: given the nodes and the simulation links, the coordinates that the
  300 ticks leave in the \<open>i\<close>-th node.
\<close>

type_synonym layout = "MachineNode list \<Rightarrow> SimLink list \<Rightarrow> nat \<Rightarrow> rat \<times> rat"

definition placeNodes :: "(nat \<Rightarrow> rat \<times> rat) \<Rightarrow> MachineNode list \<Rightarrow> MachineNode list" where
  "placeNodes pos ns =
     map (\<lambda>(n, i). n\<lparr>xM := Some (fst (pos i)), yM := Some (snd (pos i))\<rparr>) (zip ns [0..<length ns])"

subsection \<open>One round of k-means\<close>

text \<open>
  A centroid is read off a node (\<open>{x: n.x!, y: n.y!}\<close>) or computed; a coordinate read off
  a node without one is \<open>undefined\<close>, and every distance to such a centroid is \<open>NaN\<close>.
\<close>

type_synonym centroid = "rat option \<times> rat option"

record ClusterSum =
  sumX :: rat
  sumY :: rat
  count :: nat

definition sqDist :: "rat \<Rightarrow> rat \<Rightarrow> centroid \<Rightarrow> rat option" where
  "sqDist px py c =
     (case c of
        (Some cx, Some cy) \<Rightarrow> Some ((px - cx) * (px - cx) + (py - cy) * (py - cy))
      | _ \<Rightarrow> None)"

text \<open>
  \<open>centroids.forEach((c, idx) => ...)\<close> on the pair \<open>(minDist, closest)\<close>; a \<open>NaN\<close> distance
  is not less than anything.
\<close>

fun nearest :: "rat \<Rightarrow> rat \<Rightarrow> centroid list \<Rightarrow> nat \<Rightarrow> jsnum \<times> int \<Rightarrow> jsnum \<times> int" where
  "nearest px py [] idx acc = acc"
| "nearest px py (c # cs) idx (minDist, closest) =
     nearest px py cs (Suc idx)
       (case sqDist px py c of
          Some d \<Rightarrow> (if lessJ (Num d) minDist then (Num d, int idx) else (minDist, closest))
        | None \<Rightarrow> (minDist, closest))"

definition closestTo :: "rat \<Rightarrow> rat \<Rightarrow> centroid list \<Rightarrow> int" where
  "closestTo px py centroids = snd (nearest px py centroids 0 (Infinity, - 1))"

record RoundState =
  newClusters :: "string \<Rightarrow> int option"
  clusterSums :: "ClusterSum list"
  hasChanged :: bool

definition addPoint :: "rat \<Rightarrow> rat \<Rightarrow> ClusterSum \<Rightarrow> ClusterSum" where
  "addPoint px py c = \<lparr>sumX = sumX c + px, sumY = sumY c + py, count = count c + 1\<rparr>"

text \<open>
  The body of \<open>items.forEach\<close>. A node without coordinates has a \<open>NaN\<close> distance to every
  centroid, so \<open>closest\<close> stays \<open>-1\<close>; \<open>clusterSums[closest]\<close> outside the array is
  \<open>undefined\<close>, and the update of its field throws a \<open>TypeError\<close>.
\<close>

definition assignNode ::
  "centroid list \<Rightarrow> (string \<Rightarrow> int option) \<Rightarrow> MachineNode \<Rightarrow> RoundState \<Rightarrow> error + RoundState"
  where
  "assignNode centroids clusterAssignment node rs =
     (case (xM node, yM node) of
        (Some px, Some py) \<Rightarrow>
          (let closest = closestTo px py centroids
           in if 0 \<le> closest \<and> nat closest < length (clusterSums rs) then
                Inr \<lparr>newClusters = (newClusters rs)(idM node \<mapsto> closest),
                     clusterSums =
                       (clusterSums rs)[nat closest := addPoint px py (clusterSums rs ! nat closest)],
                     hasChanged =
                       (hasChanged rs \<or> Some closest \<noteq> clusterAssignment (idM node))\<rparr>
              else Inl TypeError)
      | _ \<Rightarrow> Inl TypeError)"

fun foldE :: "('a \<Rightarrow> 's \<Rightarrow> error + 's) \<Rightarrow> 'a list \<Rightarrow> 's \<Rightarrow> error + 's" where
  "foldE f [] s = Inr s"
| "foldE f (a # as) s = (case f a s of Inl e \<Rightarrow> Inl e | Inr s' \<Rightarrow> foldE f as s')"

definition newCentroid :: "ClusterSum \<Rightarrow> centroid" where
  "newCentroid c =
     (if count c > 0 then (Some (sumX c / of_nat (count c)), Some (sumY c / of_nat (count c)))
      else (Some 0, Some 0))"

text \<open>
  One pass through the body of the \<open>while\<close> loop: the new centroids, the new assignment and
  \<open>hasChanged\<close>.
\<close>

definition kmeansRound ::
  "int \<Rightarrow> MachineNode list \<Rightarrow> centroid list \<Rightarrow> (string \<Rightarrow> int option) \<Rightarrow>
   error + (centroid list \<times> (string \<Rightarrow> int option) \<times> bool)" where
  "kmeansRound k items centroids clusterAssignment =
     (if \<not> arrayLength k then Inl RangeError
      else
        (case foldE (assignNode centroids clusterAssignment) items
                \<lparr>newClusters = Map.empty,
                 clusterSums = replicate (nat k) \<lparr>sumX = 0, sumY = 0, count = 0\<rparr>,
                 hasChanged = False\<rparr> of
           Inl e \<Rightarrow> Inl e
         | Inr rs \<Rightarrow> Inr (map newCentroid (clusterSums rs), newClusters rs, hasChanged rs)))"

text \<open>
  \<open>while (hasChanged && iterations < 50)\<close>: the first argument is the number of rounds
  left, 50 at the start.
\<close>

fun kmeansLoop ::
  "nat \<Rightarrow> int \<Rightarrow> MachineNode list \<Rightarrow> centroid list \<Rightarrow> (string \<Rightarrow> int option) \<Rightarrow>
   error + (string \<Rightarrow> int option)" where
  "kmeansLoop 0 k items centroids clusterAssignment = Inr clusterAssignment"
| "kmeansLoop (Suc i) k items centroids clusterAssignment =
     (case kmeansRound k items centroids clusterAssignment of
        Inl e \<Rightarrow> Inl e
      | Inr (centroids', newAssignment, changed) \<Rightarrow>
          (if changed then kmeansLoop i k items centroids' newAssignment
           else Inr newAssignment))"

subsection \<open>Scoring an attempt\<close>

definition crossFlowOf :: "(string \<Rightarrow> int option) \<Rightarrow> MachineLink \<Rightarrow> rat \<Rightarrow> rat" where
  "crossFlowOf assignment l flow =
     (case (assignment (source l), assignment (target l)) of
        (Some sC, Some tC) \<Rightarrow> (if sC \<noteq> tC then flow + valueL l else flow)
      | _ \<Rightarrow> flow)"

definition splitPenalty :: "(string \<Rightarrow> int option) \<Rightarrow> string \<times> string \<Rightarrow> rat \<Rightarrow> rat" where
  "splitPenalty assignment pair score =
     (case (assignment (fst pair), assignment (snd pair)) of
        (Some cA, Some cB) \<Rightarrow> (if cA = cB then score + 10000 else score)
      | _ \<Rightarrow> score)"

definition attemptScore ::
  "MachineLink list \<Rightarrow> (string \<times> string) list \<Rightarrow> (string \<Rightarrow> int option) \<Rightarrow> rat" where
  "attemptScore ls splits assignment =
     fold (splitPenalty assignment) splits (0 + fold (crossFlowOf assignment) ls 0)"

subsection \<open>optimizeLayout\<close>

text \<open>
  \<open>[...items].sort(() => 0.5 - Math.random())\<close> sorts with a comparator that answers at
  random; which order comes out depends on the engine's sorting algorithm. The outcome
  enters as a parameter: \<open>shuffle pass items\<close> is the order used in attempt \<open>pass\<close>.
  \<open>slice(0, k)\<close> is \<open>take\<close> for \<open>k \<ge> 0\<close>; for negative \<open>k\<close> the first round throws whatever
  the centroids are.
\<close>

type_synonym shuffle = "nat \<Rightarrow> MachineNode list \<Rightarrow> MachineNode list"

fun passLoop ::
  "nat \<Rightarrow> nat \<Rightarrow> shuffle \<Rightarrow> int \<Rightarrow> MachineNode list \<Rightarrow> MachineLink list \<Rightarrow>
   (string \<times> string) list \<Rightarrow> (string \<Rightarrow> int option) \<times> jsnum \<Rightarrow>
   error + ((string \<Rightarrow> int option) \<times> jsnum)" where
  "passLoop 0 pass shuf k items ls splits best = Inr best"
| "passLoop (Suc i) pass shuf k items ls splits (bestNodeClusterMap, bestScore) =
     (let shuffled = shuf pass items;
          centroids = map (\<lambda>n. (xM n, yM n)) (take (nat k) shuffled)
      in case kmeansLoop 50 k items centroids Map.empty of
           Inl e \<Rightarrow> Inl e
         | Inr clusterAssignment \<Rightarrow>
             (let currentScore = attemptScore ls splits clusterAssignment
              in passLoop i (Suc pass) shuf k items ls splits
                   (if lessJ (Num currentScore) bestScore
                    then (clusterAssignment, Num currentScore)
                    else (bestNodeClusterMap, bestScore))))"

definition applyBest :: "(string \<Rightarrow> int option) \<Rightarrow> MachineNode \<Rightarrow> MachineNode" where
  "applyBest bestNodeClusterMap n =
     n\<lparr>clusterId := Some (case bestNodeClusterMap (idM n) of Some c \<Rightarrow> c | None \<Rightarrow> 0)\<rparr>"

definition nodeClusterMap :: "MachineNode list \<Rightarrow> string \<Rightarrow> int option" where
  "nodeClusterMap ns = getOpt (mapOfEntries (map (\<lambda>n. (idM n, clusterId n)) ns))"

definition assemble :: "MachineNode list \<Rightarrow> MachineLink list \<Rightarrow> OptimizerResult" where
  "assemble ns ls =
     \<lparr>nodesR = ns, linksR = ls, clusters = groupByCluster ns,
      stats = Some \<lparr>totalCrossFlow = fold (crossFlowOf (nodeClusterMap ns)) ls 0\<rparr>\<rparr>"

definition optimizeLayout ::
  "nat \<Rightarrow> layout \<Rightarrow> shuffle \<Rightarrow> Buildings \<Rightarrow> Target list \<Rightarrow> int \<Rightarrow> (string \<times> string) list \<Rightarrow>
   (string \<times> string) list \<Rightarrow> int \<Rightarrow> error + OptimizerResult" where
  "optimizeLayout depth lay shuf buildings targets numClustersK splits cons attempts =
     (case calculateRequirements depth buildings targets of
        None \<Rightarrow> Inl RecursionLimit
      | Some raw \<Rightarrow>
          (let ns0 = map toMachineNode (nodes raw);
               ls = map toMachineLink (links raw);
               simLinks = map toSimLink ls @ constraintLinks ns0 cons;
               ns = placeNodes (lay ns0 simLinks) ns0;
               items = filter (\<lambda>n. category n \<noteq> Some ''sink'') ns
           in if length items > 0 then
                (let k = min numClustersK (int (length items))
                 in case passLoop (nat attempts) 0 shuf k items ls splits (Map.empty, Infinity) of
                      Inl e \<Rightarrow> Inl e
                    | Inr (bestNodeClusterMap, bestScore) \<Rightarrow>
                        Inr (assemble (map (applyBest bestNodeClusterMap) ns) ls))
              else Inr (assemble ns ls)))"

section \<open>The three functions on a store\<close>

text \<open>
  Whether a call changes what it was given is a question about objects: where each write
  goes. For that question the objects a caller can see are put into a store, a list of cells
  addressed by position, and the three functions are written once more, passing the store
  along. A new object is a new cell at the end of the store. The searches themselves
  (k-means, the evolutionary search) work on local arrays and maps that no one else holds;
  they stay the functions above, applied to what is read from the store.

  A building is kept in one cell together with its recipes and their item rates: the code
  assigns to no field of either, and what needs an argument is where the writes to node
  objects go, which are reached through a \<open>Map\<close> and through arrays.
\<close>

datatype cell =
    Arr "nat list"
  | BuildingObj Building
  | TargetObj Target
  | SankeyNodeObj SankeyNode
  | LinkObj SankeyLink
  | MachineNodeObj MachineNode
  | NodeMap "(string \<times> nat) list"
  | NumberMap "(string \<times> rat) list"

type_synonym store = "cell list"

definition deref :: "store \<Rightarrow> nat \<Rightarrow> cell option" where
  "deref h a = (if a < length h then Some (h ! a) else None)"

definition alloc :: "cell \<Rightarrow> store \<Rightarrow> store \<times> nat" where
  "alloc c h = (h @ [c], length h)"

definition allocAll :: "cell list \<Rightarrow> store \<Rightarrow> store \<times> nat list" where
  "allocAll cs h = (h @ cs, [length h..<length h + length cs])"

definition writeAll :: "nat list \<Rightarrow> cell list \<Rightarrow> store \<Rightarrow> store" where
  "writeAll as cs h = fold (\<lambda>(a, c) h'. h'[a := c]) (zip as cs) h"

definition asBuilding :: "cell \<Rightarrow> Building option" where
  "asBuilding c = (case c of BuildingObj b \<Rightarrow> Some b | _ \<Rightarrow> None)"

definition asTarget :: "cell \<Rightarrow> Target option" where
  "asTarget c = (case c of TargetObj t \<Rightarrow> Some t | _ \<Rightarrow> None)"

definition asSankeyNode :: "cell \<Rightarrow> SankeyNode option" where
  "asSankeyNode c = (case c of SankeyNodeObj n \<Rightarrow> Some n | _ \<Rightarrow> None)"

definition asLink :: "cell \<Rightarrow> SankeyLink option" where
  "asLink c = (case c of LinkObj l \<Rightarrow> Some l | _ \<Rightarrow> None)"

definition asMachineNode :: "cell \<Rightarrow> MachineNode option" where
  "asMachineNode c = (case c of MachineNodeObj n \<Rightarrow> Some n | _ \<Rightarrow> None)"

text \<open>
  Reading an array of objects of one kind. A store in which an address does not hold what
  the types of the program promise makes the call end in a \<open>TypeError\<close>. A call returns
  the store it leaves behind together with its outcome, so that the store is known also
  after a call that threw.
\<close>

definition readArray :: "(cell \<Rightarrow> 'a option) \<Rightarrow> store \<Rightarrow> nat \<Rightarrow> 'a list option" where
  "readArray f h a =
     (case deref h a of
        Some (Arr as) \<Rightarrow>
          those (map (\<lambda>b. case deref h b of Some c \<Rightarrow> f c | None \<Rightarrow> None) as)
      | _ \<Rightarrow> None)"

subsection \<open>calculateRequirements on the store\<close>

fun forEachS ::
  "('a \<Rightarrow> store \<Rightarrow> store \<times> error option) \<Rightarrow> 'a list \<Rightarrow> store \<Rightarrow> store \<times> error option" where
  "forEachS f [] h = (h, None)"
| "forEachS f (x # xs) h =
     (case f x h of
        (h', Some e) \<Rightarrow> (h', Some e)
      | (h', None) \<Rightarrow> forEachS f xs h')"

text \<open>
  \<open>bA\<close> is the address of the \<open>buildings\<close> array, \<open>nodesA\<close> and \<open>linksA\<close> are the addresses
  of the maps \<open>nodes\<close> and \<open>linksMap\<close>. The map \<open>nodes\<close> holds references to node objects,
  and \<open>node.requiredAmount += amount\<close> is a write to the object that \<open>nodes.get\<close> returned
  or that was just created.
\<close>

definition visitInputS ::
  "(string \<Rightarrow> rat \<Rightarrow> store \<Rightarrow> store \<times> error option) \<Rightarrow> nat \<Rightarrow> string \<Rightarrow> rat \<Rightarrow>
   ItemRate \<Rightarrow> store \<Rightarrow> store \<times> error option" where
  "visitInputS trav linksA itemId ratio input h =
     (let inputAmount = amount_per_minute input * ratio;
          key = linkKey (idI input) itemId
      in case deref h linksA of
           Some (NumberMap lm) \<Rightarrow>
             trav (idI input) inputAmount
               (h[linksA := NumberMap (AList.update key (orZero (map_of lm key) + inputAmount) lm)])
         | _ \<Rightarrow> (h, Some TypeError))"

fun traverseS ::
  "nat \<Rightarrow> nat \<Rightarrow> nat \<Rightarrow> nat \<Rightarrow> string \<Rightarrow> rat \<Rightarrow> store \<Rightarrow> store \<times> error option" where
  "traverseS 0 bA nodesA linksA itemId amt h = (h, Some RecursionLimit)"
| "traverseS (Suc depth) bA nodesA linksA itemId amt h =
     (case readArray asBuilding h bA of
        None \<Rightarrow> (h, Some TypeError)
      | Some buildings \<Rightarrow>
          (let result = findRecipe buildings itemId
           in case deref h nodesA of
                Some (NodeMap nm) \<Rightarrow>
                  (let (h1, a) =
                         (case map_of nm itemId of
                            Some a \<Rightarrow> (h, a)
                          | None \<Rightarrow>
                              (let (h', a) = alloc (SankeyNodeObj (newNode itemId result)) h
                               in (h'[nodesA := NodeMap (AList.update itemId a nm)], a)))
                   in case deref h1 a of
                        Some (SankeyNodeObj node) \<Rightarrow>
                          (let h2 = h1[a := SankeyNodeObj (accumulate amt node)]
                           in case result of
                                None \<Rightarrow> (h2, None)
                              | Some (recipe, bId, bName) \<Rightarrow>
                                  forEachS
                                    (visitInputS (traverseS depth bA nodesA linksA) linksA itemId
                                       (amt / amount_per_minute (outputR recipe)))
                                    (inputs recipe) h2)
                      | _ \<Rightarrow> (h1, Some TypeError))
              | _ \<Rightarrow> (h, Some TypeError)))"

text \<open>\<open>links.push({ source, target, value })\<close> into the array at \<open>linksArrA\<close>.\<close>

definition pushLink :: "nat \<Rightarrow> string \<times> rat \<Rightarrow> store \<Rightarrow> store \<times> error option" where
  "pushLink linksArrA e h =
     (let (h', a) = alloc (LinkObj (linkOfEntry e)) h
      in case deref h' linksArrA of
           Some (Arr ls) \<Rightarrow> (h'[linksArrA := Arr (ls @ [a])], None)
         | _ \<Rightarrow> (h', Some TypeError))"

text \<open>
  The result is the pair of the addresses of the two arrays of the returned object,
  \<open>nodes\<close> (made by \<open>Array.from(nodes.values())\<close>) and \<open>links\<close>.
\<close>

definition calculateRequirementsS ::
  "nat \<Rightarrow> nat \<Rightarrow> nat \<Rightarrow> store \<Rightarrow> store \<times> (error + nat \<times> nat)" where
  "calculateRequirementsS depth bA tA h0 =
     (let (h1, nodesA) = alloc (NodeMap []) h0;
          (h2, linksArrA) = alloc (Arr []) h1;
          (h3, linksA) = alloc (NumberMap []) h2
      in case readArray asTarget h3 tA of
           None \<Rightarrow> (h3, Inl TypeError)
         | Some targets \<Rightarrow>
             (case forEachS (\<lambda>t. traverseS depth bA nodesA linksA (idT t) (amount t)) targets h3 of
                (h4, Some e) \<Rightarrow> (h4, Inl e)
              | (h4, None) \<Rightarrow>
                  (case (deref h4 nodesA, deref h4 linksA) of
                     (Some (NodeMap nm), Some (NumberMap lm)) \<Rightarrow>
                       (case forEachS (pushLink linksArrA) lm h4 of
                          (h5, Some e) \<Rightarrow> (h5, Inl e)
                        | (h5, None) \<Rightarrow>
                            (let (h6, nodesArrA) = alloc (Arr (map snd nm)) h5
                             in (h6, Inr (nodesArrA, linksArrA))))
                   | _ \<Rightarrow> (h4, Inl TypeError))))"

subsection \<open>The optimizers on the store\<close>

text \<open>
  Both optimizers copy what \<open>calculateRequirements\<close> returned into new objects
  (\<open>rawNodes.map(n => ({...}))\<close>). The simulation writes coordinates into these node objects
  (and into the copies \<open>simLinks\<close>, which are not used again); at the end the cluster ids
  are written into them. The outcome of a call that returns is the addresses of the
  returned nodes and links together with the returned value.
\<close>

definition optimizeLayoutS ::
  "nat \<Rightarrow> layout \<Rightarrow> shuffle \<Rightarrow> nat \<Rightarrow> nat \<Rightarrow> int \<Rightarrow> (string \<times> string) list \<Rightarrow>
   (string \<times> string) list \<Rightarrow> int \<Rightarrow> store \<Rightarrow>
   store \<times> (error + nat list \<times> nat list \<times> OptimizerResult)" where
  "optimizeLayoutS depth lay shuf bA tA numClustersK splits cons attempts h0 =
     (case calculateRequirementsS depth bA tA h0 of
        (h1, Inl e) \<Rightarrow> (h1, Inl e)
      | (h1, Inr (rawNodesA, rawLinksA)) \<Rightarrow>
          (case (readArray asSankeyNode h1 rawNodesA, readArray asLink h1 rawLinksA) of
             (Some rawNodes, Some rawLinks) \<Rightarrow>
               (let ns0 = map toMachineNode rawNodes;
                    ls = map toMachineLink rawLinks;
                    (h2, nodeAs) = allocAll (map MachineNodeObj ns0) h1;
                    (h3, linkAs) = allocAll (map LinkObj ls) h2;
                    simLinks = map toSimLink ls @ constraintLinks ns0 cons;
                    ns = placeNodes (lay ns0 simLinks) ns0;
                    h4 = writeAll nodeAs (map MachineNodeObj ns) h3;
                    items = filter (\<lambda>n. category n \<noteq> Some ''sink'') ns
                in if length items > 0 then
                     (let k = min numClustersK (int (length items))
                      in case passLoop (nat attempts) 0 shuf k items ls splits
                                (Map.empty, Infinity) of
                           Inl e \<Rightarrow> (h4, Inl e)
                         | Inr (bestNodeClusterMap, bestScore) \<Rightarrow>
                             (let ns' = map (applyBest bestNodeClusterMap) ns;
                                  h5 = writeAll nodeAs (map MachineNodeObj ns') h4
                              in (h5, Inr (nodeAs, linkAs, assemble ns' ls))))
                   else (h4, Inr (nodeAs, linkAs, assemble ns ls)))
           | _ \<Rightarrow> (h1, Inl TypeError)))"

definition runGeneticOptimizationS ::
  "nat \<Rightarrow> nat \<Rightarrow> nat \<Rightarrow> GAParams \<Rightarrow> int \<Rightarrow> rng \<Rightarrow> store \<Rightarrow>
   store \<times> (error + nat list \<times> nat list \<times> OptimizerResult)" where
  "runGeneticOptimizationS depth bA tA params attempts g h0 =
     (case calculateRequirementsS depth bA tA h0 of
        (h1, Inl e) \<Rightarrow> (h1, Inl e)
      | (h1, Inr (rawNodesA, rawLinksA)) \<Rightarrow>
          (case (readArray asSankeyNode h1 rawNodesA, readArray asLink h1 rawLinksA) of
             (Some rawNodes, Some rawLinks) \<Rightarrow>
               (let ns = map toMachineNode rawNodes;
                    ls = map toMachineLink rawLinks;
                    (h2, nodeAs) = allocAll (map MachineNodeObj ns) h1;
                    (h3, linkAs) = allocAll (map LinkObj ls) h2
                in case attemptLoop (nat attempts) params ns ls None g of
                     Inl e \<Rightarrow> (h3, Inl e)
                   | Inr (bestResult, g') \<Rightarrow>
                       (case bestResult of
                          None \<Rightarrow> (h3, Inl OptimizationFailed)
                        | Some best \<Rightarrow>
                            (case assignClusters (individualB best) ns of
                               Inl e \<Rightarrow> (h3, Inl e)
                             | Inr ns' \<Rightarrow>
                                 (let h4 = writeAll nodeAs (map MachineNodeObj ns') h3
                                  in case fold (crossFlowStep ns' (individualB best)) ls (Inr 0) of
                                       Inl e \<Rightarrow> (h4, Inl e)
                                     | Inr flow \<Rightarrow>
                                         (h4, Inr (nodeAs, linkAs,
                                              \<lparr>nodesR = ns', linksR = ls,
                                               clusters = groupByCluster ns',
                                               stats = Some \<lparr>totalCrossFlow = flow\<rparr>\<rparr>))))))
           | _ \<Rightarrow> (h1, Inl TypeError)))"

text \<open>The example of the specification in a store: the catalog at address 1, the targets at 3.\<close>

definition smelterStore :: store where
  "smelterStore = [BuildingObj (hd smelterCatalog), Arr [0], TargetObj (hd tenBars), Arr [2]]"

subsection \<open>Notions used in the statements about demand resolution\<close>

definition barFree :: "string \<Rightarrow> bool" where
  "barFree s = (CHR ''|'' \<notin> set s)"

definition catalogIds :: "Buildings \<Rightarrow> string list" where
  "catalogIds buildings =
     concat (map (\<lambda>r. idI (outputR r) # map idI (inputs r)) (allRecipes buildings))"

definition idsBarFree :: "Buildings \<Rightarrow> Target list \<Rightarrow> bool" where
  "idsBarFree buildings targets = list_all barFree (catalogIds buildings @ map idT targets)"

text \<open>Every division of demand resolution is by the output rate of a recipe.\<close>

definition ratesNonzero :: "Buildings \<Rightarrow> bool" where
  "ratesNonzero buildings =
     list_all (\<lambda>r. amount_per_minute (outputR r) \<noteq> 0) (allRecipes buildings)"

text \<open>
  The demand equation of a node: its required amount is the sum of the values of the links
  that have the node at the given end, plus the amounts of the targets that name it.
\<close>

definition demandEquation ::
  "(SankeyLink \<Rightarrow> string) \<Rightarrow> Target list \<Rightarrow> SankeyData \<Rightarrow> SankeyNode \<Rightarrow> bool" where
  "demandEquation endpoint targets res n =
     (requiredAmount n =
        Some (sum_list (map valueL (filter (\<lambda>l. endpoint l = name n) (links res)))
              + sum_list (map amount (filter (\<lambda>t. idT t = name n) targets))))"

text \<open>The two halves of a visit: entering the node, and recording the link to an input.\<close>

definition enterNode :: "Buildings \<Rightarrow> string \<Rightarrow> rat \<Rightarrow> ResolverState \<Rightarrow> ResolverState" where
  "enterNode buildings itemId amt st =
     st\<lparr>nodesMap :=
          AList.update itemId
            (accumulate amt (case map_of (nodesMap st) itemId of
                               Some nd \<Rightarrow> nd
                             | None \<Rightarrow> newNode itemId (findRecipe buildings itemId)))
            (nodesMap st)\<rparr>"

definition addLink :: "string \<Rightarrow> string \<Rightarrow> rat \<Rightarrow> ResolverState \<Rightarrow> ResolverState" where
  "addLink inputId itemId inputAmount st =
     st\<lparr>linksMap :=
          AList.update (linkKey inputId itemId)
            (orZero (map_of (linksMap st) (linkKey inputId itemId)) + inputAmount) (linksMap st)\<rparr>"

text \<open>Reading a result per node and per pair of link ends.\<close>

definition requiredOf :: "SankeyData \<Rightarrow> string \<Rightarrow> rat option" where
  "requiredOf res x =
     (case find (\<lambda>n. name n = x) (nodes res) of None \<Rightarrow> None | Some n \<Rightarrow> requiredAmount n)"

definition linkValueOf :: "SankeyData \<Rightarrow> string \<Rightarrow> string \<Rightarrow> rat" where
  "linkValueOf res s t =
     sum_list (map valueL (filter (\<lambda>l. source l = s \<and> target l = t) (links res)))"

definition addOpt :: "rat option \<Rightarrow> rat option \<Rightarrow> rat option" where
  "addOpt a b = (case (a, b) of (Some x, Some y) \<Rightarrow> Some (x + y) | _ \<Rightarrow> None)"

definition endpoints :: "SankeyData \<Rightarrow> (string \<times> string) list" where
  "endpoints res = map (\<lambda>l. (source l, target l)) (links res)"

subsection \<open>Notions used in the proofs about demand resolution\<close>

definition names :: "ResolverState \<Rightarrow> string set" where
  "names st = fst ` set (nodesMap st)"

definition stateOK :: "ResolverState \<Rightarrow> bool" where
  "stateOK st \<longleftrightarrow>
     distinct (map fst (nodesMap st)) \<and> distinct (map fst (linksMap st)) \<and>
     (\<forall>(k, nd) \<in> set (nodesMap st). name nd = k \<and> requiredAmount nd \<noteq> None)"

definition lkeys :: "ResolverState \<Rightarrow> string set" where
  "lkeys st = fst ` set (linksMap st)"

definition keyOK :: "string set \<Rightarrow> string \<Rightarrow> bool" where
  "keyOK N k \<longleftrightarrow> (\<exists>s t. k = linkKey s t \<and> s \<in> N \<and> t \<in> N)"

definition finalOK :: "ResolverState \<Rightarrow> bool" where
  "finalOK st \<longleftrightarrow> stateOK st \<and> (\<forall>k\<in>names st. barFree k) \<and> (\<forall>k\<in>lkeys st. keyOK (names st) k)"

definition reqOf :: "ResolverState \<Rightarrow> string \<Rightarrow> rat" where
  "reqOf st x =
     (case map_of (nodesMap st) x of
        None \<Rightarrow> 0
      | Some nd \<Rightarrow> (case requiredAmount nd of None \<Rightarrow> 0 | Some r \<Rightarrow> r))"

definition sourceOfKey :: "string \<Rightarrow> string" where
  "sourceOfKey k = source (linkOfEntry (k, 0))"

definition outOf :: "ResolverState \<Rightarrow> string \<Rightarrow> rat" where
  "outOf st x = sum_list (map snd (filter (\<lambda>e. sourceOfKey (fst e) = x) (linksMap st)))"

definition scaleNode :: "rat \<Rightarrow> SankeyNode \<Rightarrow> SankeyNode" where
  "scaleNode c nd = nd\<lparr>requiredAmount := map_option ((*) c) (requiredAmount nd)\<rparr>"

definition scaleState :: "rat \<Rightarrow> ResolverState \<Rightarrow> ResolverState" where
  "scaleState c st =
     \<lparr>nodesMap = map (\<lambda>e. (fst e, scaleNode c (snd e))) (nodesMap st),
      linksMap = map (\<lambda>e. (fst e, c * snd e)) (linksMap st)\<rparr>"

definition scaleData :: "rat \<Rightarrow> SankeyData \<Rightarrow> SankeyData" where
  "scaleData c res =
     \<lparr>nodes = map (scaleNode c) (nodes res),
      links = map (\<lambda>l. l\<lparr>valueL := c * valueL l\<rparr>) (links res)\<rparr>"

definition scaleTarget :: "rat \<Rightarrow> Target \<Rightarrow> Target" where
  "scaleTarget c t = t\<lparr>amount := c * amount t\<rparr>"

subsection \<open>Notions used in the proofs about the evolutionary search\<close>

definition goodIndividual :: "(int option \<Rightarrow> bool) \<Rightarrow> nat \<Rightarrow> individual \<Rightarrow> bool" where
  "goodIndividual Q n ind \<longleftrightarrow> length ind = n \<and> (\<forall>c\<in>set ind. Q c)"

definition freshGenes :: "(int option \<Rightarrow> bool) \<Rightarrow> GAParams \<Rightarrow> bool" where
  "freshGenes Q params \<longleftrightarrow> (\<forall>g. validRng g \<longrightarrow> Q (Some (randomBelow (numClusters params) g)))"

definition inCluster :: "int \<Rightarrow> int option \<Rightarrow> bool" where
  "inCluster k c \<longleftrightarrow> (\<exists>j. c = Some j \<and> 0 \<le> j \<and> j < k)"

definition goodBest :: "(int option \<Rightarrow> bool) \<Rightarrow> nat \<Rightarrow> BestResult \<Rightarrow> bool" where
  "goodBest Q n res \<longleftrightarrow> (\<exists>ind. individualB res = Some ind \<and> goodIndividual Q n ind)"

subsection \<open>Notions used in the statements about the optimizers\<close>

text \<open>
  The cross flow as the specification words it: the sum of the values of the links whose
  source node and target node carry different cluster ids in the given node list.
\<close>

definition crossing :: "MachineNode list \<Rightarrow> MachineLink \<Rightarrow> bool" where
  "crossing ns l \<longleftrightarrow>
     (\<exists>s\<in>set ns. \<exists>t\<in>set ns. idM s = source l \<and> idM t = target l \<and> clusterId s \<noteq> clusterId t)"

definition statedCrossFlow :: "MachineNode list \<Rightarrow> MachineLink list \<Rightarrow> rat" where
  "statedCrossFlow ns ls = sum_list (map valueL (filter (crossing ns) ls))"

text \<open>Parameters for the examples.\<close>

definition gaParams :: GAParams where
  "gaParams =
     \<lparr>populationSize = 3, generations = 2, mutationRate = 1 / 10, numClusters = 2,
      weights = \<lparr>constraintsW = 100, splitW = 100, balanceW = 10, transportW = 1\<rparr>,
      constraints = [], splitConstraints = [(''ore'', ''bar'')],
      minClusterSize = 1, maxClusterSize = 5\<rparr>"

definition alternating :: rng where
  "alternating i = (if even i then 7 / 10 else 1 / 5)"

definition smelterNodes :: "MachineNode list" where
  "smelterNodes = map toMachineNode (nodes (smelterResultFor 10))"

definition smelterLinks :: "MachineLink list" where
  "smelterLinks = map toMachineLink (links (smelterResultFor 10))"

definition threeIndividuals :: "individual list" where
  "threeIndividuals = [[Some 0, Some 1], [Some 0, Some 0], [Some 1, Some 1]]"

subsection \<open>Notions used in the statements about k-means\<close>

text \<open>
  The nodes that a round assigns to the centroid with index \<open>j\<close>, and their mean position.
  A round that returns has found coordinates in every item.
\<close>

definition membersOf :: "centroid list \<Rightarrow> MachineNode list \<Rightarrow> nat \<Rightarrow> MachineNode list" where
  "membersOf centroids items j =
     filter (\<lambda>n. case (xM n, yM n) of
                   (Some px, Some py) \<Rightarrow> closestTo px py centroids = int j
                 | _ \<Rightarrow> False) items"

definition coordX :: "MachineNode \<Rightarrow> rat" where
  "coordX n = (case xM n of Some v \<Rightarrow> v | None \<Rightarrow> 0)"

definition coordY :: "MachineNode \<Rightarrow> rat" where
  "coordY n = (case yM n of Some v \<Rightarrow> v | None \<Rightarrow> 0)"

definition meanPosition :: "MachineNode list \<Rightarrow> centroid" where
  "meanPosition ms =
     (Some (sum_list (map coordX ms) / of_nat (length ms)),
      Some (sum_list (map coordY ms) / of_nat (length ms)))"

definition hasPosition :: "MachineNode \<Rightarrow> bool" where
  "hasPosition n \<longleftrightarrow> xM n \<noteq> None \<and> yM n \<noteq> None"

definition addMembers :: "MachineNode list \<Rightarrow> ClusterSum \<Rightarrow> ClusterSum" where
  "addMembers ms c =
     \<lparr>sumX = sumX c + sum_list (map coordX ms), sumY = sumY c + sum_list (map coordY ms),
      count = count c + length ms\<rparr>"

definition inRange :: "int \<Rightarrow> (string \<Rightarrow> int option) \<Rightarrow> bool" where
  "inRange k assignment \<longleftrightarrow> (\<forall>key c. assignment key = Some c \<longrightarrow> 0 \<le> c \<and> c < k)"

text \<open>An item at a given position, and the five items of the example for k-means.\<close>

definition itemAt :: "string \<Rightarrow> rat \<Rightarrow> rat \<Rightarrow> MachineNode" where
  "itemAt ident px py =
     \<lparr>name = ident, category = Some ''raw'', machineName = Some ''Source'',
      outputPerMachine = None, requiredAmount = Some 0,
      idM = ident, xM = Some px, yM = Some py, buildingId = Some ''raw'',
      recipeOutputId = Some ident, clusterId = None\<rparr>"

definition fiveItems :: "MachineNode list" where
  "fiveItems =
     [itemAt ''a'' (- 1) 0, itemAt ''b'' (- 2) 0, itemAt ''c'' (- 1) 1,
      itemAt ''d'' 2 0, itemAt ''e'' 3 1]"

text \<open>The seeds of an attempt whose shuffle puts \<open>c\<close>, \<open>a\<close>, \<open>b\<close> first.\<close>

definition seedCentroids :: "centroid list" where
  "seedCentroids = map (\<lambda>n. (xM n, yM n)) [fiveItems ! 2, fiveItems ! 0, fiveItems ! 1]"

definition rowLayout :: layout where
  "rowLayout ns simLinks i = (of_nat i * 10, 0)"

definition keepOrder :: shuffle where
  "keepOrder pass items = items"

text \<open>
  For the store: \<open>keeps base h h'\<close> says that \<open>h'\<close> has every cell of \<open>h\<close> below \<open>base\<close>
  with the same content and has lost no cell; \<open>nodesFresh base nodesA h\<close> says that every
  reference held by the map at \<open>nodesA\<close> points at or above \<open>base\<close>.
\<close>

definition keeps :: "nat \<Rightarrow> store \<Rightarrow> store \<Rightarrow> bool" where
  "keeps base h h' = (length h \<le> length h' \<and> take base h' = take base h)"

definition nodesFresh :: "nat \<Rightarrow> nat \<Rightarrow> store \<Rightarrow> bool" where
  "nodesFresh base nodesA h =
     (base \<le> length h \<and>
      (case deref h nodesA of
         Some (NodeMap nm) \<Rightarrow> list_all (\<lambda>(k, a). base \<le> a) nm
       | _ \<Rightarrow> True))"

text \<open>
  How a store represents a state of the resolver on values: the map at \<open>nodesA\<close> leads,
  key by key, to the node objects of \<open>nodesMap\<close>, through distinct references to cells
  created after \<open>h0\<close>; the map at \<open>linksA\<close> is \<open>linksMap\<close>; the array at \<open>arrA\<close> is still
  empty. \<open>agrees\<close> compares the outcome of a step on values with that of the step on the
  store.
\<close>

definition nodeRel :: "store \<Rightarrow> string \<times> nat \<Rightarrow> string \<times> SankeyNode \<Rightarrow> bool" where
  "nodeRel h p q = (fst p = fst q \<and> deref h (snd p) = Some (SankeyNodeObj (snd q)))"

definition represents :: "store \<Rightarrow> nat \<Rightarrow> nat \<Rightarrow> nat \<Rightarrow> store \<Rightarrow> ResolverState \<Rightarrow> bool" where
  "represents h0 nodesA linksA arrA h st =
     (keeps (length h0) h0 h \<and> deref h arrA = Some (Arr [])
      \<and> deref h linksA = Some (NumberMap (linksMap st))
      \<and> (\<exists>nm. deref h nodesA = Some (NodeMap nm) \<and> distinct (map snd nm)
            \<and> list_all (\<lambda>(k, a). length h0 \<le> a) nm
            \<and> list_all2 (nodeRel h) nm (nodesMap st)))"

definition agrees ::
  "(store \<Rightarrow> ResolverState \<Rightarrow> bool) \<Rightarrow> ResolverState option \<Rightarrow> store \<times> error option \<Rightarrow> bool"
  where
  "agrees R pure res =
     (case pure of
        None \<Rightarrow> snd res = Some RecursionLimit
      | Some st' \<Rightarrow> snd res = None \<and> R (fst res) st')"

section \<open>Termination of demand resolution\<close>


lemma forEachM_not_None:
  "(\<And>x st. x \<in> set xs \<Longrightarrow> f x st \<noteq> None) \<Longrightarrow> forEachM f xs st \<noteq> None"
proof (induction xs arbitrary: st)
  case Nil
  then show ?case by simp
next
  case (Cons x xs)
  from Cons.prems[of x st] obtain st' where "f x st = Some st'" by auto
  moreover have "forEachM f xs st' \<noteq> None"
    by (rule Cons.IH) (simp add: Cons.prems)
  ultimately show ?case by simp
qed

lemma forEachM_mono:
  "forEachM f xs st = Some st' \<Longrightarrow> (\<And>x s s'. f x s = Some s' \<Longrightarrow> g x s = Some s')
   \<Longrightarrow> forEachM g xs st = Some st'"
proof (induction xs arbitrary: st)
  case Nil
  then show ?case by simp
next
  case (Cons x xs)
  then show ?case by (auto split: option.splits)
qed

lemma traverse_Suc:
  "traverse depth buildings itemId amt st = Some st'
   \<Longrightarrow> traverse (Suc depth) buildings itemId amt st = Some st'"
proof (induction depth arbitrary: itemId amt st st')
  case 0
  then show ?case by simp
next
  case (Suc depth)
  show ?case
  proof (cases "findRecipe buildings itemId")
    case None
    with Suc.prems show ?thesis by (simp add: Let_def)
  next
    case (Some res)
    obtain recipe bId bName where res: "res = (recipe, bId, bName)" by (cases res)
    let ?st1 = "st\<lparr>nodesMap := AList.update itemId
          (accumulate amt (case map_of (nodesMap st) itemId of Some nd \<Rightarrow> nd
             | None \<Rightarrow> newNode itemId (Some (recipe, bId, bName)))) (nodesMap st)\<rparr>"
    let ?ratio = "amt / amount_per_minute (outputR recipe)"
    from Suc.prems Some res
    have run: "forEachM (visitInput (traverse depth buildings) itemId ?ratio) (inputs recipe) ?st1 = Some st'"
      by (simp add: Let_def)
    have "forEachM (visitInput (traverse (Suc depth) buildings) itemId ?ratio) (inputs recipe) ?st1 = Some st'"
      by (rule forEachM_mono[OF run]) (simp add: visitInput_def Let_def Suc.IH del: traverse.simps)
    with Some res show ?thesis by (simp add: Let_def del: traverse.simps) (simp add: Let_def)
  qed
qed

lemma traverse_mono:
  "traverse depth buildings itemId amt st = Some st' \<Longrightarrow> depth \<le> depth'
   \<Longrightarrow> traverse depth' buildings itemId amt st = Some st'"
proof (induction depth')
  case 0
  then show ?case by simp
next
  case (Suc d)
  show ?case
  proof (cases "depth \<le> d")
    case True
    with Suc show ?thesis by (blast intro: traverse_Suc)
  next
    case False
    with Suc.prems have "depth = Suc d" by simp
    with Suc.prems show ?thesis by simp
  qed
qed

lemma finite_dependsOn_aux:
  "findInRecipes rs itemId = Some r \<Longrightarrow> r \<in> set rs \<and> idI (outputR r) = itemId"
  by (induction rs) (auto split: if_splits)

lemma findRecipe_Some:
  "findRecipe buildings itemId = Some (r, bId, bName) \<Longrightarrow>
     \<exists>b rs. b \<in> set buildings \<and> recipes b = Some rs \<and> r \<in> set rs \<and> idI (outputR r) = itemId"
  by (induction buildings) (auto split: option.splits dest: finite_dependsOn_aux)

lemma findRecipe_allRecipes:
  "findRecipe buildings itemId = Some (r, bId, bName) \<Longrightarrow> r \<in> set (allRecipes buildings) \<and> idI (outputR r) = itemId"
  by (drule findRecipe_Some) (force simp: allRecipes_def)

lemma finite_dependsOn: "finite (dependsOn buildings)"
proof -
  have "dependsOn buildings \<subseteq>
      (\<Union>r \<in> set (allRecipes buildings). idI ` set (inputs r)) \<times> (idI \<circ> outputR) ` set (allRecipes buildings)"
    by (auto simp: dependsOn_def dest!: findRecipe_allRecipes)
  moreover have "finite ((\<Union>r \<in> set (allRecipes buildings). idI ` set (inputs r)) \<times> (idI \<circ> outputR) ` set (allRecipes buildings))"
    by blast
  ultimately show ?thesis by (rule finite_subset)
qed

lemma wf_dependsOn: "acyclic (dependsOn buildings) \<Longrightarrow> wf (dependsOn buildings)"
  by (simp add: finite_acyclic_wf finite_dependsOn)

lemma uniform_bound:
  fixes P :: "'a \<Rightarrow> nat \<Rightarrow> bool"
  assumes "\<And>x. x \<in> set xs \<Longrightarrow> \<exists>n. \<forall>m\<ge>n. P x m"
  shows "\<exists>n. \<forall>x\<in>set xs. \<forall>m\<ge>n. P x m"
  using assms
proof (induction xs)
  case Nil
  then show ?case by simp
next
  case (Cons x xs)
  then obtain n1 where n1: "\<forall>y\<in>set xs. \<forall>m\<ge>n1. P y m" by force
  from Cons.prems[of x] obtain n2 where n2: "\<forall>m\<ge>n2. P x m" by auto
  have "\<forall>y\<in>set (x # xs). \<forall>m\<ge>max n1 n2. P y m"
    using n1 n2 by auto
  then show ?case ..
qed

lemma traverse_returns:
  assumes "acyclic (dependsOn buildings)"
  shows "\<exists>n. \<forall>depth\<ge>n. \<forall>amt st. traverse depth buildings itemId amt st \<noteq> None"
  using wf_dependsOn[OF assms]
proof (induction itemId rule: wf_induct_rule)
  case (less itemId)
  show ?case
  proof (cases "findRecipe buildings itemId")
    case None
    have "\<forall>depth\<ge>1. \<forall>amt st. traverse depth buildings itemId amt st \<noteq> None"
    proof (intro allI impI)
      fix depth :: nat and amt st assume "1 \<le> depth"
      then obtain d where "depth = Suc d" by (cases depth) auto
      with None show "traverse depth buildings itemId amt st \<noteq> None" by (simp add: Let_def)
    qed
    then show ?thesis ..
  next
    case (Some res)
    obtain recipe bId bName where res: "res = (recipe, bId, bName)" by (cases res)
    have "\<exists>n. \<forall>i\<in>set (inputs recipe). \<forall>m\<ge>n. \<forall>amt st. traverse m buildings (idI i) amt st \<noteq> None"
    proof (rule uniform_bound)
      fix i assume "i \<in> set (inputs recipe)"
      with Some res have "(idI i, itemId) \<in> dependsOn buildings"
        by (auto simp: dependsOn_def)
      then show "\<exists>n. \<forall>m\<ge>n. \<forall>amt st. traverse m buildings (idI i) amt st \<noteq> None"
        by (rule less.IH)
    qed
    then obtain n where n: "\<And>i m amt st. i \<in> set (inputs recipe) \<Longrightarrow> n \<le> m \<Longrightarrow>
        traverse m buildings (idI i) amt st \<noteq> None" by blast
    have "\<forall>depth\<ge>Suc n. \<forall>amt st. traverse depth buildings itemId amt st \<noteq> None"
    proof (intro allI impI)
      fix depth :: nat and amt st assume "Suc n \<le> depth"
      then obtain d where d: "depth = Suc d" "n \<le> d" by (cases depth) auto
      have "forEachM (visitInput (traverse d buildings) itemId r) (inputs recipe) s \<noteq> None" for r s
        by (rule forEachM_not_None) (simp add: visitInput_def Let_def n d)
      with Some res d show "traverse depth buildings itemId amt st \<noteq> None"
        by (simp add: Let_def)
    qed
    then show ?thesis ..
  qed
qed



lemma forEachM_None:
  "x \<in> set xs \<Longrightarrow> (\<And>s. f x s = None) \<Longrightarrow> forEachM f xs st = None"
  by (induction xs arbitrary: st) (auto split: option.splits)

lemma traverse_on_cycle:
  assumes closed: "\<And>x. x \<in> C \<Longrightarrow> \<exists>r bId bName i. findRecipe buildings x = Some (r, bId, bName)
      \<and> i \<in> set (inputs r) \<and> idI i \<in> C"
  shows "itemId \<in> C \<Longrightarrow> traverse depth buildings itemId amt st = None"
proof (induction depth arbitrary: itemId amt st)
  case 0
  then show ?case by simp
next
  case (Suc depth)
  from closed[OF Suc.prems] obtain r bId bName i where
    r: "findRecipe buildings itemId = Some (r, bId, bName)" and i: "i \<in> set (inputs r)" "idI i \<in> C"
    by blast
  have "forEachM (visitInput (traverse depth buildings) itemId q) (inputs r) s = None" for q s
    by (rule forEachM_None[OF i(1)]) (simp add: visitInput_def Let_def Suc.IH[OF i(2)])
  with r show ?case by (simp add: Let_def)
qed

lemma cyclic_catalog_unbounded:
  assumes "\<not> acyclic (dependsOn buildings)"
  shows "\<exists>itemId. \<forall>depth amt st. traverse depth buildings itemId amt st = None"
proof -
  let ?R = "dependsOn buildings"
  from assms obtain x where x: "(x, x) \<in> ?R\<^sup>+" by (auto simp: acyclic_def)
  let ?C = "{y. (x, y) \<in> ?R\<^sup>+ \<and> (y, x) \<in> ?R\<^sup>*}"
  have closed: "\<exists>r bId bName i. findRecipe buildings y = Some (r, bId, bName)
      \<and> i \<in> set (inputs r) \<and> idI i \<in> ?C" if "y \<in> ?C" for y
  proof -
    from that have xy: "(x, y) \<in> ?R\<^sup>+" and yx: "(y, x) \<in> ?R\<^sup>*" by auto
    from xy obtain z where z: "(x, z) \<in> ?R\<^sup>*" "(z, y) \<in> ?R" by (auto dest: tranclD2)
    from z(2) obtain r bId bName i where r: "findRecipe buildings y = Some (r, bId, bName)"
      "i \<in> set (inputs r)" "idI i = z" by (auto simp: dependsOn_def)
    from z(1) x have "(x, z) \<in> ?R\<^sup>+" by (auto simp: rtrancl_eq_or_trancl)
    moreover from z(2) yx have "(z, x) \<in> ?R\<^sup>*" by auto
    ultimately have "z \<in> ?C" by simp
    with r show ?thesis by blast
  qed
  have "x \<in> ?C" using x by simp
  then have "\<forall>depth amt st. traverse depth buildings x amt st = None"
    using traverse_on_cycle[of ?C buildings x] closed by blast
  then show ?thesis ..
qed

lemma resolveTargets_mono:
  "resolveTargets depth buildings targets = Some st \<Longrightarrow> depth \<le> depth'
   \<Longrightarrow> resolveTargets depth' buildings targets = Some st"
  unfolding resolveTargets_def
  by (erule forEachM_mono) (rule traverse_mono)

lemma calculateRequirements_mono:
  "calculateRequirements depth buildings targets = Some res \<Longrightarrow> depth \<le> depth'
   \<Longrightarrow> calculateRequirements depth' buildings targets = Some res"
  by (auto simp: calculateRequirements_def split: option.splits dest: resolveTargets_mono)

lemma resolveTargets_returns:
  assumes "acyclic (dependsOn buildings)"
  shows "\<exists>n. \<forall>depth\<ge>n. resolveTargets depth buildings targets \<noteq> None"
proof -
  have "\<exists>n. \<forall>t\<in>set targets. \<forall>m\<ge>n. \<forall>st. traverse m buildings (idT t) (amount t) st \<noteq> None"
    by (rule uniform_bound) (use traverse_returns[OF assms] in blast)
  then obtain n where n: "\<And>t m st. t \<in> set targets \<Longrightarrow> n \<le> m \<Longrightarrow>
     traverse m buildings (idT t) (amount t) st \<noteq> None" by blast
  have "\<forall>depth\<ge>n. resolveTargets depth buildings targets \<noteq> None"
    unfolding resolveTargets_def by (intro allI impI forEachM_not_None n)
  then show ?thesis ..
qed

lemma calculateRequirements_returns:
  assumes "acyclic (dependsOn buildings)"
  shows "\<exists>res n. \<forall>depth\<ge>n. calculateRequirements depth buildings targets = Some res"
proof -
  from resolveTargets_returns[OF assms] obtain n where
    n: "\<forall>depth\<ge>n. resolveTargets depth buildings targets \<noteq> None" by blast
  then obtain res where res: "calculateRequirements n buildings targets = Some res"
    by (auto simp: calculateRequirements_def split: option.splits)
  have "\<forall>depth\<ge>n. calculateRequirements depth buildings targets = Some res"
    using calculateRequirements_mono[OF res] by blast
  then show ?thesis by blast
qed

lemma findRecipe_smelter:
  "findRecipe smelterCatalog itemId =
     (if itemId = ''bar'' then Some (\<lparr>outputR = \<lparr>idI = ''bar'', amount_per_minute = 1\<rparr>,
                        inputs = [\<lparr>idI = ''ore'', amount_per_minute = 1\<rparr>]\<rparr>, ''smelter'', ''Smelter'') else None)"
  by (auto simp: smelterCatalog_def)

lemma dependsOn_smelter: "dependsOn smelterCatalog = {(''ore'', ''bar'')}"
  by (auto simp: dependsOn_def findRecipe_smelter)

lemma acyclic_smelter: "acyclic (dependsOn smelterCatalog)"
proof -
  have "acyclic ({} :: (string \<times> string) set)" by (simp add: acyclic_def)
  then have "acyclic (insert (''ore'', ''bar'') ({} :: (string \<times> string) set))"
    by (subst acyclic_insert) simp
  then show ?thesis by (simp add: dependsOn_smelter)
qed

text \<open>
  Claim C8. For a catalog whose dependency relation is acyclic, and for every target list,
  \<open>calculateRequirements\<close> returns: from some recursion depth on, every depth bound gives
  the same result. (Lemma \<open>cyclic_catalog_unbounded\<close> is the converse: in a cyclic catalog
  some item exhausts every depth bound.)
\<close>

theorem calculateRequirements_terminates:
  "acyclic (dependsOn buildings) \<Longrightarrow>
     \<exists>res n. \<forall>depth\<ge>n. calculateRequirements depth buildings targets = Some res"
  by (rule calculateRequirements_returns)

theorem calculateRequirements_terminates_witness:
  "acyclic (dependsOn smelterCatalog) \<and>
   (\<exists>res n. \<forall>depth\<ge>n. calculateRequirements depth smelterCatalog tenBars = Some res)"
  using calculateRequirements_terminates[OF acyclic_smelter] acyclic_smelter by blast

section \<open>Properties of demand resolution\<close>

lemma traverse_unfold:
  "traverse (Suc depth) buildings itemId amt st =
     (case findRecipe buildings itemId of
        None \<Rightarrow> Some (enterNode buildings itemId amt st)
      | Some (recipe, bId, bName) \<Rightarrow>
          forEachM (visitInput (traverse depth buildings) itemId
                      (amt / amount_per_minute (outputR recipe)))
            (inputs recipe) (enterNode buildings itemId amt st))"
  by (simp add: Let_def enterNode_def split: option.splits)

declare traverse.simps(2) [simp del]

lemma visitInput_unfold:
  "visitInput trav itemId ratio input st =
     trav (idI input) (amount_per_minute input * ratio)
       (addLink (idI input) itemId (amount_per_minute input * ratio) st)"
  by (simp add: visitInput_def addLink_def Let_def)

lemma forEachM_invariant:
  "forEachM f xs st = Some st' \<Longrightarrow> I st
   \<Longrightarrow> (\<And>x s s'. x \<in> set xs \<Longrightarrow> I s \<Longrightarrow> f x s = Some s' \<Longrightarrow> I s') \<Longrightarrow> I st'"
proof (induction xs arbitrary: st)
  case Nil
  then show ?case by simp
next
  case (Cons x xs)
  from Cons.prems(1) obtain s where s: "f x st = Some s" "forEachM f xs s = Some st'"
    by (auto split: option.splits)
  have "I s" using Cons.prems(2) s(1) by (rule Cons.prems(3)[of x st s, simplified])
  show ?case by (rule Cons.IH[OF s(2) \<open>I s\<close>]) (rule Cons.prems(3), auto)
qed

subsection \<open>Keys\<close>

lemma split_barFree: "c \<notin> set s \<Longrightarrow> split c s = [s]"
  by (induction s) (auto simp: Let_def)

lemma split_append: "c \<notin> set s \<Longrightarrow> split c (s @ c # t) = s # split c t"
  by (induction s) (auto simp: Let_def)

lemma linkOfEntry_linkKey:
  "barFree s \<Longrightarrow> barFree t \<Longrightarrow>
     linkOfEntry (linkKey s t, v) = \<lparr>source = s, target = t, valueL = v\<rparr>"
  by (simp add: linkOfEntry_def linkKey_def barFree_def split_append split_barFree)

lemma valueL_linkOfEntry [simp]: "valueL (linkOfEntry e) = snd e"
  by (simp add: linkOfEntry_def split: list.splits)

subsection \<open>Well-formed states\<close>

lemma set_update_subset: "set (AList.update k v al) \<subseteq> insert (k, v) (set al)"
  by (induction al) auto

lemma name_accumulate [simp]: "name (accumulate amt nd) = name nd"
  by (simp add: accumulate_def split: option.splits)

lemma requiredAmount_accumulate:
  "requiredAmount nd = Some r \<Longrightarrow> requiredAmount (accumulate amt nd) = Some (r + amt)"
  by (simp add: accumulate_def)

lemma stateOK_empty: "stateOK emptyState"
  by (simp add: stateOK_def emptyState_def)

lemma stateOK_enterNode: "stateOK st \<Longrightarrow> stateOK (enterNode buildings itemId amt st)"
proof -
  assume ok: "stateOK st"
  let ?nd = "case map_of (nodesMap st) itemId of Some nd \<Rightarrow> nd
             | None \<Rightarrow> newNode itemId (findRecipe buildings itemId)"
  have nd: "name ?nd = itemId \<and> requiredAmount ?nd \<noteq> None"
  proof (cases "map_of (nodesMap st) itemId")
    case None
    then show ?thesis by (simp add: newNode_def)
  next
    case (Some nd)
    then have "(itemId, nd) \<in> set (nodesMap st)" by (rule map_of_SomeD)
    with ok Some show ?thesis by (auto simp: stateOK_def)
  qed
  then have acc: "name (accumulate amt ?nd) = itemId \<and> requiredAmount (accumulate amt ?nd) \<noteq> None"
    by (auto simp: requiredAmount_accumulate)
  show ?thesis
    using ok acc set_update_subset[of itemId "accumulate amt ?nd" "nodesMap st"]
    unfolding stateOK_def enterNode_def
    by (auto simp: distinct_update)
qed

lemma stateOK_addLink: "stateOK st \<Longrightarrow> stateOK (addLink i x a st)"
  by (simp add: stateOK_def addLink_def distinct_update)

lemma traverse_stateOK:
  "traverse depth buildings itemId amt st = Some st' \<Longrightarrow> stateOK st \<Longrightarrow> stateOK st'"
proof (induction depth arbitrary: itemId amt st st')
  case 0
  then show ?case by simp
next
  case (Suc depth)
  show ?case
  proof (cases "findRecipe buildings itemId")
    case None
    with Suc.prems show ?thesis by (auto simp: traverse_unfold stateOK_enterNode)
  next
    case (Some res)
    obtain recipe bId bName where res: "res = (recipe, bId, bName)" by (cases res)
    from Suc.prems(1) Some res obtain q where
      run: "forEachM (visitInput (traverse depth buildings) itemId q) (inputs recipe)
              (enterNode buildings itemId amt st) = Some st'"
      by (simp add: traverse_unfold)
    show ?thesis
    proof (rule forEachM_invariant[OF run, where I = stateOK])
      show "stateOK (enterNode buildings itemId amt st)"
        using Suc.prems(2) by (rule stateOK_enterNode)
    next
      fix x s s'
      assume "stateOK s" "visitInput (traverse depth buildings) itemId q x s = Some s'"
      then show "stateOK s'"
        by (auto simp: visitInput_unfold intro: Suc.IH stateOK_addLink)
    qed
  qed
qed

subsection \<open>Names and keys\<close>

lemma names_enterNode [simp]: "names (enterNode buildings x a st) = insert x (names st)"
  by (simp add: names_def enterNode_def dom_update)

lemma names_addLink [simp]: "names (addLink i x a st) = names st"
  by (simp add: names_def addLink_def)

lemma lkeys_enterNode [simp]: "lkeys (enterNode buildings x a st) = lkeys st"
  by (simp add: lkeys_def enterNode_def)

lemma lkeys_addLink [simp]: "lkeys (addLink i x a st) = insert (linkKey i x) (lkeys st)"
  by (simp add: lkeys_def addLink_def dom_update)

lemma traverse_names:
  "traverse depth buildings itemId amt st = Some st' \<Longrightarrow>
     names st \<subseteq> names st' \<and> itemId \<in> names st'"
proof (induction depth arbitrary: itemId amt st st')
  case 0
  then show ?case by simp
next
  case (Suc depth)
  show ?case
  proof (cases "findRecipe buildings itemId")
    case None
    with Suc.prems show ?thesis by (auto simp: traverse_unfold)
  next
    case (Some res)
    obtain recipe bId bName where res: "res = (recipe, bId, bName)" by (cases res)
    from Suc.prems(1) Some res obtain q where
      run: "forEachM (visitInput (traverse depth buildings) itemId q) (inputs recipe)
              (enterNode buildings itemId amt st) = Some st'"
      by (simp add: traverse_unfold)
    show ?thesis
    proof (rule forEachM_invariant[OF run, where I = "\<lambda>s. names st \<subseteq> names s \<and> itemId \<in> names s"])
      show "names st \<subseteq> names (enterNode buildings itemId amt st)
            \<and> itemId \<in> names (enterNode buildings itemId amt st)"
        by auto
    next
      fix x s s'
      assume I: "names st \<subseteq> names s \<and> itemId \<in> names s"
        and step: "visitInput (traverse depth buildings) itemId q x s = Some s'"
      from step have "names s \<subseteq> names s'"
        using Suc.IH[of "idI x" _ "addLink (idI x) itemId (amount_per_minute x * q) s" s']
        by (simp add: visitInput_unfold)
      with I show "names st \<subseteq> names s' \<and> itemId \<in> names s'" by auto
    qed
  qed
qed

lemma keyOK_mono: "keyOK N k \<Longrightarrow> N \<subseteq> N' \<Longrightarrow> keyOK N' k"
  by (auto simp: keyOK_def)

lemma traverse_keys:
  "traverse depth buildings itemId amt st = Some st' \<Longrightarrow>
     \<forall>k\<in>lkeys st'. k \<in> lkeys st \<or> keyOK (names st') k"
proof (induction depth arbitrary: itemId amt st st')
  case 0
  then show ?case by simp
next
  case (Suc depth)
  show ?case
  proof (cases "findRecipe buildings itemId")
    case None
    with Suc.prems show ?thesis by (auto simp: traverse_unfold)
  next
    case (Some res)
    obtain recipe bId bName where res: "res = (recipe, bId, bName)" by (cases res)
    from Suc.prems(1) Some res obtain q where
      run: "forEachM (visitInput (traverse depth buildings) itemId q) (inputs recipe)
              (enterNode buildings itemId amt st) = Some st'"
      by (simp add: traverse_unfold)
    let ?I = "\<lambda>s. itemId \<in> names s \<and> (\<forall>k\<in>lkeys s. k \<in> lkeys st \<or> keyOK (names s) k)"
    have "?I st'"
    proof (rule forEachM_invariant[OF run, where I = ?I])
      show "?I (enterNode buildings itemId amt st)" by simp
    next
      fix x s s'
      assume I: "?I s" and step: "visitInput (traverse depth buildings) itemId q x s = Some s'"
      let ?s1 = "addLink (idI x) itemId (amount_per_minute x * q) s"
      from step have t: "traverse depth buildings (idI x) (amount_per_minute x * q) ?s1 = Some s'"
        by (simp add: visitInput_unfold)
      from traverse_names[OF t] have n: "names s \<subseteq> names s'" "idI x \<in> names s'" by auto
      from Suc.IH[OF t] have k: "\<forall>k\<in>lkeys s'. k \<in> insert (linkKey (idI x) itemId) (lkeys s) \<or> keyOK (names s') k"
        by simp
      have new: "keyOK (names s') (linkKey (idI x) itemId)"
        using n I by (auto simp: keyOK_def)
      show "?I s'"
      proof (intro conjI ballI)
        show "itemId \<in> names s'" using I n by auto
      next
        fix k assume "k \<in> lkeys s'"
        with k have "k = linkKey (idI x) itemId \<or> k \<in> lkeys s \<or> keyOK (names s') k" by auto
        then show "k \<in> lkeys st \<or> keyOK (names s') k"
          using new I keyOK_mono[OF _ n(1)] by blast
      qed
    qed
    then show ?thesis by simp
  qed
qed

lemma inputs_barFree:
  assumes "list_all barFree (catalogIds buildings)"
    and "findRecipe buildings itemId = Some (r, bId, bName)" and "i \<in> set (inputs r)"
  shows "barFree (idI i)"
proof -
  from findRecipe_allRecipes[OF assms(2)] have "r \<in> set (allRecipes buildings)" by simp
  with assms(3) have "idI i \<in> set (catalogIds buildings)"
    by (auto simp: catalogIds_def)
  with assms(1) show ?thesis by (simp add: list_all_iff)
qed

lemma traverse_barFree:
  assumes cat: "list_all barFree (catalogIds buildings)"
  shows "traverse depth buildings itemId amt st = Some st' \<Longrightarrow> barFree itemId \<Longrightarrow>
     \<forall>k\<in>names st. barFree k \<Longrightarrow> \<forall>k\<in>names st'. barFree k"
proof (induction depth arbitrary: itemId amt st st')
  case 0
  then show ?case by simp
next
  case (Suc depth)
  show ?case
  proof (cases "findRecipe buildings itemId")
    case None
    with Suc.prems show ?thesis by (auto simp: traverse_unfold)
  next
    case (Some res)
    obtain recipe bId bName where res: "res = (recipe, bId, bName)" by (cases res)
    from Suc.prems(1) Some res obtain q where
      run: "forEachM (visitInput (traverse depth buildings) itemId q) (inputs recipe)
              (enterNode buildings itemId amt st) = Some st'"
      by (simp add: traverse_unfold)
    show ?thesis
    proof (rule forEachM_invariant[OF run, where I = "\<lambda>s. \<forall>k\<in>names s. barFree k"])
      show "\<forall>k\<in>names (enterNode buildings itemId amt st). barFree k"
        using Suc.prems by simp
    next
      fix x s s'
      assume x: "x \<in> set (inputs recipe)" and I: "\<forall>k\<in>names s. barFree k"
        and step: "visitInput (traverse depth buildings) itemId q x s = Some s'"
      have "barFree (idI x)" using inputs_barFree[OF cat] Some res x by blast
      with step I show "\<forall>k\<in>names s'. barFree k"
        using Suc.IH[of "idI x" _ "addLink (idI x) itemId (amount_per_minute x * q) s" s']
        by (simp add: visitInput_unfold)
    qed
  qed
qed

subsection \<open>The final state\<close>

lemma traverse_finalOK:
  assumes cat: "list_all barFree (catalogIds buildings)"
    and run: "traverse depth buildings itemId amt st = Some st'"
    and bf: "barFree itemId" and ok: "finalOK st"
  shows "finalOK st'"
proof -
  from traverse_names[OF run] have n: "names st \<subseteq> names st'" by simp
  have "\<forall>k\<in>lkeys st'. keyOK (names st') k"
  proof
    fix k assume "k \<in> lkeys st'"
    with traverse_keys[OF run] have "k \<in> lkeys st \<or> keyOK (names st') k" by blast
    then show "keyOK (names st') k"
      using ok keyOK_mono[OF _ n] by (auto simp: finalOK_def)
  qed
  moreover have "stateOK st'" using traverse_stateOK[OF run] ok by (simp add: finalOK_def)
  moreover have "\<forall>k\<in>names st'. barFree k"
    using traverse_barFree[OF cat run bf] ok by (simp add: finalOK_def)
  ultimately show ?thesis by (simp add: finalOK_def)
qed

lemma resolveTargets_finalOK:
  assumes "resolveTargets depth buildings targets = Some st" and "idsBarFree buildings targets"
  shows "finalOK st"
proof -
  from assms(2) have cat: "list_all barFree (catalogIds buildings)"
    and tg: "\<And>t. t \<in> set targets \<Longrightarrow> barFree (idT t)"
    by (auto simp: idsBarFree_def list_all_iff)
  show ?thesis
  proof (rule forEachM_invariant[OF assms(1)[unfolded resolveTargets_def], where I = finalOK])
    show "finalOK emptyState"
      by (simp add: finalOK_def stateOK_empty) (simp add: names_def lkeys_def emptyState_def)
  next
    fix x s s'
    assume "x \<in> set targets" "finalOK s" "traverse depth buildings (idT x) (amount x) s = Some s'"
    then show "finalOK s'" using traverse_finalOK[OF cat] tg by blast
  qed
qed

lemma names_nodes:
  "stateOK st \<Longrightarrow> name ` set (map snd (nodesMap st)) = names st"
  by (force simp: stateOK_def names_def)

lemma finalOK_link:
  assumes "finalOK st" and "e \<in> set (linksMap st)"
  shows "\<exists>s t. s \<in> names st \<and> t \<in> names st \<and> fst e = linkKey s t
           \<and> linkOfEntry e = \<lparr>source = s, target = t, valueL = snd e\<rparr>"
proof -
  from assms(2) have "fst e \<in> lkeys st" by (simp add: lkeys_def)
  with assms(1) obtain s t where st: "fst e = linkKey s t" "s \<in> names st" "t \<in> names st"
    by (auto simp: finalOK_def keyOK_def)
  with assms(1) have "barFree s" "barFree t" by (auto simp: finalOK_def)
  then have "linkOfEntry (linkKey s t, snd e) = \<lparr>source = s, target = t, valueL = snd e\<rparr>"
    by (rule linkOfEntry_linkKey)
  with st show ?thesis by (cases e) auto
qed

lemma finalOK_distinct_pairs:
  assumes "finalOK st"
  shows "distinct (map (\<lambda>l. (source l, target l)) (map linkOfEntry (linksMap st)))"
proof -
  let ?f = "\<lambda>e. (source (linkOfEntry e), target (linkOfEntry e))"
  have "inj_on ?f (set (linksMap st))"
  proof (rule inj_onI)
    fix e e' assume e: "e \<in> set (linksMap st)" "e' \<in> set (linksMap st)" and eq: "?f e = ?f e'"
    from finalOK_link[OF assms e(1)] finalOK_link[OF assms e(2)] eq
    have "fst e = fst e'" by auto
    moreover from assms have "distinct (map fst (linksMap st))" by (simp add: finalOK_def stateOK_def)
    ultimately show "e = e'" using e by (metis eq_key_imp_eq_value prod.collapse)
  qed
  moreover from assms have "distinct (linksMap st)"
    by (auto simp: finalOK_def stateOK_def dest: distinct_map[THEN iffD1])
  ultimately have "distinct (map ?f (linksMap st))" by (simp add: distinct_map)
  then show ?thesis by (simp add: comp_def)
qed

text \<open>
  Claim C9. If no item id of the catalog or of the targets contains the character \<open>|\<close>,
  then both ends of every returned link are names of returned nodes, and no two returned
  links have the same pair of ends.
\<close>

theorem links_join_nodes:
  assumes "calculateRequirements depth buildings targets = Some res"
    and "idsBarFree buildings targets"
  shows "(\<forall>l\<in>set (links res). source l \<in> name ` set (nodes res) \<and> target l \<in> name ` set (nodes res))
         \<and> distinct (map (\<lambda>l. (source l, target l)) (links res))"
proof -
  from assms(1) obtain st where st: "resolveTargets depth buildings targets = Some st"
    and res: "res = \<lparr>nodes = map snd (nodesMap st), links = map linkOfEntry (linksMap st)\<rparr>"
    by (auto simp: calculateRequirements_def split: option.splits)
  from resolveTargets_finalOK[OF st assms(2)] have ok: "finalOK st" .
  then have nm: "name ` set (nodes res) = names st"
    using names_nodes[of st] by (simp add: res finalOK_def)
  have "\<forall>l\<in>set (links res). source l \<in> names st \<and> target l \<in> names st"
  proof
    fix l assume "l \<in> set (links res)"
    then obtain e where "e \<in> set (linksMap st)" "l = linkOfEntry e" by (auto simp: res)
    with finalOK_link[OF ok] show "source l \<in> names st \<and> target l \<in> names st" by fastforce
  qed
  moreover have "distinct (map (\<lambda>l. (source l, target l)) (links res))"
    using finalOK_distinct_pairs[OF ok] by (simp add: res)
  ultimately show ?thesis by (simp add: nm)
qed

subsection \<open>The balance of required amounts and outgoing links\<close>

lemma source_linkOfEntry: "source (linkOfEntry e) = sourceOfKey (fst e)"
  by (simp add: sourceOfKey_def linkOfEntry_def split: list.splits)

lemma sourceOfKey_linkKey: "barFree s \<Longrightarrow> barFree t \<Longrightarrow> sourceOfKey (linkKey s t) = s"
  by (simp add: sourceOfKey_def linkOfEntry_linkKey)

lemma sum_update:
  "sum_list (map snd (filter (\<lambda>e. P (fst e)) (AList.update k (orZero (map_of al k) + d) al)))
     = sum_list (map snd (filter (\<lambda>e. P (fst e)) al)) + (if P k then d else 0)"
  by (induction al) (auto simp: orZero_def)

lemma reqOf_addLink [simp]: "reqOf (addLink i x a st) y = reqOf st y"
  by (simp add: reqOf_def addLink_def)

lemma outOf_enterNode [simp]: "outOf (enterNode buildings x a st) y = outOf st y"
  by (simp add: outOf_def enterNode_def)

lemma outOf_addLink:
  "barFree i \<Longrightarrow> barFree x \<Longrightarrow>
     outOf (addLink i x a st) y = outOf st y + (if y = i then a else 0)"
  unfolding outOf_def addLink_def
  by (simp add: sum_update[where P = "\<lambda>k. sourceOfKey k = y"] sourceOfKey_linkKey)

lemma reqOf_enterNode:
  assumes "stateOK st"
  shows "reqOf (enterNode buildings x a st) y = reqOf st y + (if y = x then a else 0)"
proof (cases "map_of (nodesMap st) x")
  case None
  then show ?thesis
    by (simp add: reqOf_def enterNode_def update_conv' newNode_def accumulate_def)
next
  case (Some nd)
  then have "(x, nd) \<in> set (nodesMap st)" by (rule map_of_SomeD)
  with assms obtain r where "requiredAmount nd = Some r" by (auto simp: stateOK_def)
  with Some show ?thesis
    by (simp add: reqOf_def enterNode_def update_conv' accumulate_def)
qed

lemma traverse_balance:
  assumes cat: "list_all barFree (catalogIds buildings)"
  shows "traverse depth buildings itemId amt st = Some st' \<Longrightarrow> barFree itemId \<Longrightarrow> stateOK st \<Longrightarrow>
     reqOf st' y - outOf st' y = reqOf st y - outOf st y + (if y = itemId then amt else 0)"
proof (induction depth arbitrary: itemId amt st st')
  case 0
  then show ?case by simp
next
  case (Suc depth)
  show ?case
  proof (cases "findRecipe buildings itemId")
    case None
    with Suc.prems show ?thesis by (auto simp: traverse_unfold reqOf_enterNode)
  next
    case (Some res)
    obtain recipe bId bName where res: "res = (recipe, bId, bName)" by (cases res)
    from Suc.prems(1) Some res obtain q where
      run: "forEachM (visitInput (traverse depth buildings) itemId q) (inputs recipe)
              (enterNode buildings itemId amt st) = Some st'"
      by (simp add: traverse_unfold)
    let ?s0 = "enterNode buildings itemId amt st"
    let ?I = "\<lambda>s. stateOK s \<and> reqOf s y - outOf s y = reqOf ?s0 y - outOf ?s0 y"
    have "?I st'"
    proof (rule forEachM_invariant[OF run, where I = ?I])
      show "?I ?s0" using Suc.prems(3) by (simp add: stateOK_enterNode)
    next
      fix x s s'
      assume x: "x \<in> set (inputs recipe)" and I: "?I s"
        and step: "visitInput (traverse depth buildings) itemId q x s = Some s'"
      let ?a = "amount_per_minute x * q"
      let ?s1 = "addLink (idI x) itemId ?a s"
      have bx: "barFree (idI x)" using inputs_barFree[OF cat] Some res x by blast
      from step have t: "traverse depth buildings (idI x) ?a ?s1 = Some s'"
        by (simp add: visitInput_unfold)
      have ok1: "stateOK ?s1" using I by (simp add: stateOK_addLink)
      from Suc.IH[OF t bx ok1]
      have "reqOf s' y - outOf s' y = reqOf s y - outOf s y"
        by (simp add: outOf_addLink[OF bx Suc.prems(2)])
      with I traverse_stateOK[OF t ok1] show "?I s'" by simp
    qed
    then show ?thesis by (simp add: reqOf_enterNode[OF Suc.prems(3)])
  qed
qed

lemma forEachM_targets_balance:
  assumes cat: "list_all barFree (catalogIds buildings)"
  shows "forEachM (\<lambda>t. traverse depth buildings (idT t) (amount t)) targets st = Some st' \<Longrightarrow>
     \<forall>t\<in>set targets. barFree (idT t) \<Longrightarrow> stateOK st \<Longrightarrow>
     reqOf st' y - outOf st' y =
       reqOf st y - outOf st y + sum_list (map amount (filter (\<lambda>t. idT t = y) targets))"
proof (induction targets arbitrary: st)
  case Nil
  then show ?case by simp
next
  case (Cons t ts)
  from Cons.prems(1) obtain s where s: "traverse depth buildings (idT t) (amount t) st = Some s"
    "forEachM (\<lambda>t. traverse depth buildings (idT t) (amount t)) ts s = Some st'"
    by (auto split: option.splits)
  have "stateOK s" using traverse_stateOK[OF s(1)] Cons.prems(3) .
  from Cons.IH[OF s(2) _ this] Cons.prems(2)
  have "reqOf st' y - outOf st' y =
       reqOf s y - outOf s y + sum_list (map amount (filter (\<lambda>t. idT t = y) ts))" by simp
  moreover from traverse_balance[OF cat s(1) _ Cons.prems(3), of y] Cons.prems(2)
  have "reqOf s y - outOf s y = reqOf st y - outOf st y + (if y = idT t then amount t else 0)"
    by simp
  ultimately show ?case by auto
qed

text \<open>
  Claim C1, amended. If no item id of the catalog or of the targets contains the character
  \<open>|\<close> and no output rate is zero, then after \<open>calculateRequirements\<close> has returned,
  over exact arithmetic, the required amount of every node
  is the sum of the values of the links whose \<^emph>\<open>source\<close> is that node (a link runs from the
  input to its consumer, so these are the rates demanded by the direct consumers) plus the
  amounts of the targets that name it.
\<close>

theorem required_is_outflow_plus_targets:
  assumes "calculateRequirements depth buildings targets = Some res"
    and "idsBarFree buildings targets"
    and "n \<in> set (nodes res)"
    and "ratesNonzero buildings"
  shows "demandEquation source targets res n"
proof -
  from assms(1) obtain st where st: "resolveTargets depth buildings targets = Some st"
    and res: "res = \<lparr>nodes = map snd (nodesMap st), links = map linkOfEntry (linksMap st)\<rparr>"
    by (auto simp: calculateRequirements_def split: option.splits)
  from assms(2) have cat: "list_all barFree (catalogIds buildings)"
    and tg: "\<forall>t\<in>set targets. barFree (idT t)"
    by (auto simp: idsBarFree_def list_all_iff)
  from resolveTargets_finalOK[OF st assms(2)] have ok: "stateOK st" by (simp add: finalOK_def)
  from assms(3) obtain k where k: "(k, n) \<in> set (nodesMap st)" by (auto simp: res)
  with ok have nk: "name n = k" and "requiredAmount n \<noteq> None"
    and "map_of (nodesMap st) k = Some n" by (auto simp: stateOK_def)
  then obtain r where r: "requiredAmount n = Some r" "reqOf st k = r"
    by (auto simp: reqOf_def)
  have "reqOf st k - outOf st k =
      reqOf emptyState k - outOf emptyState k + sum_list (map amount (filter (\<lambda>t. idT t = k) targets))"
    by (rule forEachM_targets_balance[OF cat st[unfolded resolveTargets_def] tg stateOK_empty])
  then have "r = outOf st k + sum_list (map amount (filter (\<lambda>t. idT t = k) targets))"
    using r by (simp add: reqOf_def outOf_def emptyState_def)
  moreover have "sum_list (map valueL (filter (\<lambda>l. source l = k) (links res))) = outOf st k"
    by (simp add: res outOf_def filter_map comp_def source_linkOfEntry)
  ultimately show ?thesis using r nk by (simp add: demandEquation_def)
qed

subsection \<open>Homogeneity in the demanded amounts\<close>

lemma map_of_map_snd:
  "map_of (map (\<lambda>e. (fst e, f (snd e))) al) k = map_option f (map_of al k)"
  by (induction al) auto

lemma update_map_snd:
  "AList.update k (f v) (map (\<lambda>e. (fst e, f (snd e))) al)
     = map (\<lambda>e. (fst e, f (snd e))) (AList.update k v al)"
  by (induction al) auto

lemma scaleNode_accumulate:
  "accumulate (c * a) (scaleNode c nd) = scaleNode c (accumulate a nd)"
  by (cases "requiredAmount nd") (simp_all add: accumulate_def scaleNode_def distrib_left)

lemma scaleNode_newNode: "scaleNode c (newNode x r) = newNode x r"
  by (simp add: scaleNode_def newNode_def)

lemma enterNode_scale:
  "enterNode buildings x (c * a) (scaleState c st) = scaleState c (enterNode buildings x a st)"
proof -
  let ?nd = "case map_of (nodesMap st) x of Some nd \<Rightarrow> nd
             | None \<Rightarrow> newNode x (findRecipe buildings x)"
  have "(case map_of (nodesMap (scaleState c st)) x of Some nd \<Rightarrow> nd
         | None \<Rightarrow> newNode x (findRecipe buildings x)) = scaleNode c ?nd"
    by (simp add: scaleState_def map_of_map_snd scaleNode_newNode split: option.splits)
  then show ?thesis
    by (simp add: enterNode_def scaleNode_accumulate)
       (simp add: scaleState_def update_map_snd)
qed

lemma orZero_scale: "orZero (map_option ((*) c) v) = c * orZero v"
  by (simp add: orZero_def split: option.splits)

lemma addLink_scale:
  "addLink i x (c * a) (scaleState c st) = scaleState c (addLink i x a st)"
proof -
  have "orZero (map_of (linksMap (scaleState c st)) (linkKey i x)) + c * a
        = c * (orZero (map_of (linksMap st) (linkKey i x)) + a)"
    by (simp add: scaleState_def map_of_map_snd orZero_scale distrib_left)
  then show ?thesis
    by (simp add: addLink_def) (simp add: scaleState_def update_map_snd)
qed

lemma forEachM_map_option:
  "(\<And>x s. x \<in> set xs \<Longrightarrow> g x (h s) = map_option h (f x s))
   \<Longrightarrow> forEachM g xs (h st) = map_option h (forEachM f xs st)"
  by (induction xs arbitrary: st) (auto split: option.splits)

lemma traverse_scale:
  "traverse depth buildings itemId (c * amt) (scaleState c st)
     = map_option (scaleState c) (traverse depth buildings itemId amt st)"
proof (induction depth arbitrary: itemId amt st)
  case 0
  then show ?case by simp
next
  case (Suc depth)
  show ?case
  proof (cases "findRecipe buildings itemId")
    case None
    then show ?thesis by (simp add: traverse_unfold enterNode_scale)
  next
    case (Some res)
    obtain recipe bId bName where res: "res = (recipe, bId, bName)" by (cases res)
    let ?q = "amt / amount_per_minute (outputR recipe)"
    have "forEachM (visitInput (traverse depth buildings) itemId (c * ?q)) (inputs recipe)
            (scaleState c (enterNode buildings itemId amt st))
          = map_option (scaleState c)
              (forEachM (visitInput (traverse depth buildings) itemId ?q) (inputs recipe)
                 (enterNode buildings itemId amt st))"
    proof (rule forEachM_map_option)
      fix x :: ItemRate and s
      have "amount_per_minute x * (c * ?q) = c * (amount_per_minute x * ?q)" by simp
      then show "visitInput (traverse depth buildings) itemId (c * ?q) x (scaleState c s)
          = map_option (scaleState c) (visitInput (traverse depth buildings) itemId ?q x s)"
        by (simp only: visitInput_unfold addLink_scale Suc.IH)
    qed
    with Some res show ?thesis
      by (simp add: traverse_unfold enterNode_scale)
  qed
qed

lemma scaleState_empty: "scaleState c emptyState = emptyState"
  by (simp add: scaleState_def emptyState_def)

lemma forEachM_targets_scale:
  "forEachM (\<lambda>t. traverse depth buildings (idT t) (amount t)) (map (scaleTarget c) targets)
      (scaleState c st)
   = map_option (scaleState c)
       (forEachM (\<lambda>t. traverse depth buildings (idT t) (amount t)) targets st)"
  by (induction targets arbitrary: st)
     (auto simp: scaleTarget_def traverse_scale split: option.splits)

lemma linkOfEntry_scale:
  "linkOfEntry (fst e, c * snd e) = (linkOfEntry e)\<lparr>valueL := c * valueL (linkOfEntry e)\<rparr>"
  by (simp add: linkOfEntry_def split: list.splits)

lemma calculateRequirements_scale:
  "calculateRequirements depth buildings (map (scaleTarget c) targets)
     = map_option (scaleData c) (calculateRequirements depth buildings targets)"
proof -
  have "resolveTargets depth buildings (map (scaleTarget c) targets)
        = map_option (scaleState c) (resolveTargets depth buildings targets)"
    unfolding resolveTargets_def
    using forEachM_targets_scale[of depth buildings c targets emptyState]
    by (simp add: scaleState_empty)
  then show ?thesis
    by (auto simp: calculateRequirements_def scaleData_def scaleState_def comp_def
          linkOfEntry_scale split: option.splits)
qed

lemma name_scaleNode [simp]: "name (scaleNode c n) = name n"
  by (simp add: scaleNode_def)

lemma find_map: "find P (map f xs) = map_option f (find (P \<circ> f) xs)"
  by (induction xs) auto

lemma requiredOf_scale:
  "requiredOf (scaleData c res) x = map_option ((*) c) (requiredOf res x)"
  by (simp add: requiredOf_def scaleData_def find_map comp_def scaleNode_def split: option.splits)

lemma linkValueOf_scale: "linkValueOf (scaleData c res) s t = c * linkValueOf res s t"
  by (simp add: linkValueOf_def scaleData_def filter_map comp_def sum_list_const_mult)

lemma endpoints_scale: "endpoints (scaleData c res) = endpoints res"
  by (simp add: endpoints_def scaleData_def comp_def)

lemma names_scale: "map name (nodes (scaleData c res)) = map name (nodes res)"
  by (simp add: scaleData_def comp_def)

lemma single_target_scaled:
  assumes "calculateRequirements depth buildings [\<lparr>idT = itemId, amount = r\<rparr>] = Some res"
  shows "\<exists>u. calculateRequirements depth buildings [\<lparr>idT = itemId, amount = 1\<rparr>] = Some u
             \<and> res = scaleData r u"
proof -
  have "[\<lparr>idT = itemId, amount = r\<rparr>] = map (scaleTarget r) [\<lparr>idT = itemId, amount = 1\<rparr>]"
    by (simp add: scaleTarget_def)
  with assms calculateRequirements_scale[of depth buildings r "[\<lparr>idT = itemId, amount = 1\<rparr>]"]
  have "map_option (scaleData r)
      (calculateRequirements depth buildings [\<lparr>idT = itemId, amount = 1\<rparr>]) = Some res"
    by simp
  then show ?thesis by (auto simp: map_option_case split: option.splits)
qed

text \<open>
  Claim C4. Over exact arithmetic (no output rate is zero), demand resolution is additive
  in the rate of a single target: the runs for the
  rates \<open>r1\<close>, \<open>r2\<close> and \<open>r1 + r2\<close> return the same nodes and the same link ends in the
  same order, the required amount of every node in the third run is the sum of those in the
  first two, and so is the value carried between every pair of link ends.
\<close>

theorem resolution_additive:
  assumes "calculateRequirements d1 buildings [\<lparr>idT = itemId, amount = r1\<rparr>] = Some res1"
    and "calculateRequirements d2 buildings [\<lparr>idT = itemId, amount = r2\<rparr>] = Some res2"
    and "calculateRequirements d12 buildings [\<lparr>idT = itemId, amount = r1 + r2\<rparr>] = Some res12"
    and "ratesNonzero buildings"
  shows "map name (nodes res12) = map name (nodes res1)
       \<and> map name (nodes res12) = map name (nodes res2)
       \<and> endpoints res12 = endpoints res1
       \<and> endpoints res12 = endpoints res2
       \<and> (\<forall>x. requiredOf res12 x = addOpt (requiredOf res1 x) (requiredOf res2 x))
       \<and> (\<forall>s t. linkValueOf res12 s t = linkValueOf res1 s t + linkValueOf res2 s t)"
proof -
  let ?d = "max d1 (max d2 d12)"
  have 1: "calculateRequirements ?d buildings [\<lparr>idT = itemId, amount = r1\<rparr>] = Some res1"
    by (rule calculateRequirements_mono[OF assms(1)]) simp
  have 2: "calculateRequirements ?d buildings [\<lparr>idT = itemId, amount = r2\<rparr>] = Some res2"
    by (rule calculateRequirements_mono[OF assms(2)]) simp
  have 12: "calculateRequirements ?d buildings [\<lparr>idT = itemId, amount = r1 + r2\<rparr>] = Some res12"
    by (rule calculateRequirements_mono[OF assms(3)]) simp
  from single_target_scaled[OF 1] single_target_scaled[OF 2] single_target_scaled[OF 12]
  obtain u where u: "res1 = scaleData r1 u" "res2 = scaleData r2 u" "res12 = scaleData (r1 + r2) u"
    by auto
  have "requiredOf res12 x = addOpt (requiredOf res1 x) (requiredOf res2 x)" for x
    by (cases "requiredOf u x") (simp_all add: u requiredOf_scale addOpt_def distrib_right)
  moreover have "linkValueOf res12 s t = linkValueOf res1 s t + linkValueOf res2 s t" for s t
    by (simp add: u linkValueOf_scale distrib_right)
  ultimately show ?thesis
    by (simp add: u endpoints_scale names_scale)
qed

theorem links_join_nodes_witness:
  "calculateRequirements 2 smelterCatalog tenBars = Some (smelterResultFor 10)
   \<and> idsBarFree smelterCatalog tenBars
   \<and> source (hd (links (smelterResultFor 10))) \<in> name ` set (nodes (smelterResultFor 10))
   \<and> target (hd (links (smelterResultFor 10))) \<in> name ` set (nodes (smelterResultFor 10))
   \<and> distinct (map (\<lambda>l. (source l, target l)) (links (smelterResultFor 10)))"
proof -
  have run: "calculateRequirements 2 smelterCatalog tenBars = Some (smelterResultFor 10)"
    by code_simp
  have bf: "idsBarFree smelterCatalog tenBars"
    by code_simp
  have "hd (links (smelterResultFor 10)) \<in> set (links (smelterResultFor 10))"
    by (simp add: smelterResultFor_def)
  with links_join_nodes[OF run bf] run bf show ?thesis by blast
qed

text \<open>
  The claim as stated, with the links whose \<^emph>\<open>target\<close> is the node: in the example of the
  specification the node \<open>ore\<close> requires 10, no link ends in it and no target names it.
\<close>

theorem required_is_inflow_counterexample:
  "calculateRequirements 2 smelterCatalog tenBars = Some (smelterResultFor 10)
   \<and> oreNode 10 \<in> set (nodes (smelterResultFor 10))
   \<and> \<not> demandEquation target tenBars (smelterResultFor 10) (oreNode 10)"
  by code_simp

theorem required_is_outflow_plus_targets_witness:
  "calculateRequirements 2 smelterCatalog tenBars = Some (smelterResultFor 10)
   \<and> idsBarFree smelterCatalog tenBars
   \<and> oreNode 10 \<in> set (nodes (smelterResultFor 10))
   \<and> ratesNonzero smelterCatalog
   \<and> demandEquation source tenBars (smelterResultFor 10) (oreNode 10)"
proof -
  have nz: "ratesNonzero smelterCatalog"
    by code_simp
  have run: "calculateRequirements 2 smelterCatalog tenBars = Some (smelterResultFor 10)"
    by code_simp
  have bf: "idsBarFree smelterCatalog tenBars"
    by code_simp
  have n: "oreNode 10 \<in> set (nodes (smelterResultFor 10))"
    by (simp add: smelterResultFor_def)
  from required_is_outflow_plus_targets[OF run bf n nz] run bf n nz show ?thesis by blast
qed

text \<open>
  Why the ids must be free of \<open>|\<close>: with the input \<open>a|b\<close> of the item \<open>c\<close> the key is
  \<open>a|b|c\<close>, which is read back as the link from \<open>a\<close> to \<open>b\<close>; neither is a node, and the
  node \<open>a|b\<close> has no link.
\<close>

lemma bar_in_id_breaks_links:
  "calculateRequirements 2 pipeCatalog [\<lparr>idT = ''c'', amount = 10\<rparr>] = Some pipeResult
   \<and> source (hd (links pipeResult)) \<notin> name ` set (nodes pipeResult)
   \<and> \<not> demandEquation source [\<lparr>idT = ''c'', amount = 10\<rparr>] pipeResult (hd (tl (nodes pipeResult)))"
  by code_simp

theorem resolution_additive_witness:
  "calculateRequirements 2 smelterCatalog [\<lparr>idT = ''bar'', amount = 10\<rparr>] = Some (smelterResultFor 10)
   \<and> calculateRequirements 2 smelterCatalog [\<lparr>idT = ''bar'', amount = 5\<rparr>] = Some (smelterResultFor 5)
   \<and> calculateRequirements 2 smelterCatalog [\<lparr>idT = ''bar'', amount = 10 + 5\<rparr>]
       = Some (smelterResultFor 15)
   \<and> ratesNonzero smelterCatalog
   \<and> map name (nodes (smelterResultFor 15)) = map name (nodes (smelterResultFor 10))
   \<and> endpoints (smelterResultFor 15) = endpoints (smelterResultFor 5)
   \<and> (\<forall>x. requiredOf (smelterResultFor 15) x
          = addOpt (requiredOf (smelterResultFor 10) x) (requiredOf (smelterResultFor 5) x))
   \<and> (\<forall>s t. linkValueOf (smelterResultFor 15) s t
          = linkValueOf (smelterResultFor 10) s t + linkValueOf (smelterResultFor 5) s t)"
proof -
  have r1: "calculateRequirements 2 smelterCatalog [\<lparr>idT = ''bar'', amount = 10\<rparr>]
      = Some (smelterResultFor 10)"
    by code_simp
  have r2: "calculateRequirements 2 smelterCatalog [\<lparr>idT = ''bar'', amount = 5\<rparr>]
      = Some (smelterResultFor 5)"
    by code_simp
  have r12: "calculateRequirements 2 smelterCatalog [\<lparr>idT = ''bar'', amount = 10 + 5\<rparr>]
      = Some (smelterResultFor 15)"
    by code_simp
  have nz: "ratesNonzero smelterCatalog"
    by code_simp
  from resolution_additive[OF r1 r2 r12 nz] r1 r2 r12 nz show ?thesis by blast
qed

section \<open>Properties of the evolutionary search\<close>

subsection \<open>Fitness is a function of the individual\<close>

lemma calculateFitness_Inr_iff:
  "(\<exists>v. calculateFitness params ns ls ind = Inr v) \<longleftrightarrow> arrayLength (numClusters params)"
  by (simp add: calculateFitness_def Let_def)

lemma calculateFitness_arrayLength:
  "calculateFitness params ns ls ind = Inr v \<Longrightarrow> arrayLength (numClusters params)"
  using calculateFitness_Inr_iff by blast

lemma calculateFitness_defined:
  "arrayLength (numClusters params) \<Longrightarrow> \<exists>v. calculateFitness params ns ls ind = Inr v"
  using calculateFitness_Inr_iff by blast

lemma mapE_Inr:
  "mapE f xs = Inr ys \<Longrightarrow> map f xs = map Inr ys"
  by (induction xs arbitrary: ys) (auto split: sum.splits)

lemma mapE_Inr_length: "mapE f xs = Inr ys \<Longrightarrow> length ys = length xs"
  by (drule mapE_Inr) (metis length_map)

lemma mapE_total: "(\<And>x. x \<in> set xs \<Longrightarrow> \<exists>y. f x = Inr y) \<Longrightarrow> \<exists>ys. mapE f xs = Inr ys"
proof (induction xs)
  case Nil
  then show ?case by simp
next
  case (Cons x xs)
  then obtain y ys where "f x = Inr y" "mapE f xs = Inr ys" by (metis list.set_intros)
  then show ?case by simp
qed

lemma mapE_zip:
  "mapE f xs = Inr ys \<Longrightarrow> (x, y) \<in> set (zip xs ys) \<Longrightarrow> f x = Inr y"
  by (induction xs arbitrary: ys) (auto split: sum.splits)

subsection \<open>Elitism\<close>

lemma breed_extends:
  "breed i params sortedPop newPopulation g = Inr (population', g')
   \<Longrightarrow> \<exists>children. population' = newPopulation @ children"
proof (induction i arbitrary: newPopulation g)
  case 0
  then show ?case by simp
next
  case (Suc i)
  then show ?case
    by (auto split: sum.splits prod.splits simp: Let_def) fastforce
qed

lemma hd_sort_key_least:
  fixes f :: "'a \<Rightarrow> 'b::linorder"
  assumes "xs \<noteq> []"
  shows "hd (sort_key f xs) \<in> set xs \<and> (\<forall>x\<in>set xs. f (hd (sort_key f xs)) \<le> f x)"
proof -
  let ?ys = "sort_key f xs"
  from assms have ne: "?ys \<noteq> []" by (metis length_0_conv length_sort)
  then obtain y ys where ys: "?ys = y # ys" by (cases ?ys) auto
  have "sorted (map f ?ys)" by (rule sorted_sort_key)
  with ys have "\<forall>x\<in>set ?ys. f y \<le> f x" by auto
  moreover have "y \<in> set ?ys" using ys by simp
  moreover have "set ?ys = set xs" by simp
  moreover have "hd ?ys = y" using ys by simp
  ultimately show ?thesis by metis
qed

text \<open>
  Claim C5. One step of \<open>evolve\<close> on a non-empty population never increases the best
  fitness, whatever the random numbers: when \<open>evolve\<close> returns, \<open>calculateFitness\<close> is
  defined on both populations, and the least value over the new population is at most the
  least value over the old one.
\<close>

theorem evolve_best_fitness_not_worse:
  assumes "evolve params ns ls population g = Inr (population', g')"
    and "population \<noteq> []"
  shows "\<exists>fits fits'.
           mapE (calculateFitness params ns ls) population = Inr fits
         \<and> mapE (calculateFitness params ns ls) population' = Inr fits'
         \<and> fits' \<noteq> [] \<and> Min (set fits') \<le> Min (set fits)"
proof -
  from assms(1) obtain fits where fits: "mapE (calculateFitness params ns ls) population = Inr fits"
    by (auto simp: evolve_def split: sum.splits)
  let ?sp = "sort_key snd (zip population fits)"
  let ?elite = "map fst (take (nat (max 2 (populationSize params div 10))) ?sp)"
  from assms(1) fits have
    "breed (nat (populationSize params - int (length ?elite))) params ?sp ?elite g
       = Inr (population', g')"
    by (simp add: evolve_def Let_def)
  from breed_extends[OF this] obtain children where pop': "population' = ?elite @ children" ..
  have len: "length fits = length population" using fits by (rule mapE_Inr_length)
  with assms(2) have zne: "zip population fits \<noteq> []" by (cases population; cases fits) auto
  from hd_sort_key_least[OF zne, of snd]
  have hd_in: "hd ?sp \<in> set (zip population fits)"
    and hd_le: "\<forall>p\<in>set (zip population fits). snd (hd ?sp) \<le> snd p" by auto
  obtain ind0 f0 where hd: "hd ?sp = (ind0, f0)" by (cases "hd ?sp")
  from zne have spne: "?sp \<noteq> []" by (metis length_0_conv length_sort)
  obtain m where m: "nat (max 2 (populationSize params div 10)) = Suc m"
    by (cases "nat (max 2 (populationSize params div 10))") (auto simp: max_def split: if_splits)
  have "hd ?sp \<in> set (take (nat (max 2 (populationSize params div 10))) ?sp)"
    unfolding m using spne by (cases ?sp) auto
  then have "ind0 \<in> set ?elite" using hd by force
  then have in_pop': "ind0 \<in> set population'" by (simp add: pop')
  have fit0: "calculateFitness params ns ls ind0 = Inr f0"
    using mapE_zip[OF fits] hd_in hd by simp
  then have al: "arrayLength (numClusters params)" by (rule calculateFitness_arrayLength)
  from mapE_total[of population' "calculateFitness params ns ls"] calculateFitness_defined[OF al]
  obtain fits' where fits': "mapE (calculateFitness params ns ls) population' = Inr fits'"
    by blast
  have "Inr f0 \<in> set (map (calculateFitness params ns ls) population')"
    using in_pop' fit0 by force
  then have f0_in': "f0 \<in> set fits'" by (auto simp: mapE_Inr[OF fits'])
  have "f0 \<in> set fits" using hd_in hd by (auto dest: set_zip_rightD)
  moreover have "\<forall>v\<in>set fits. f0 \<le> v"
  proof
    fix v assume "v \<in> set fits"
    then obtain i where "i < length fits" "fits ! i = v" by (auto simp: in_set_conv_nth)
    then have "(population ! i, v) \<in> set (zip population fits)"
      using len by (auto simp: set_zip)
    with hd_le hd show "f0 \<le> v" by fastforce
  qed
  ultimately have "Min (set fits) = f0" by (intro Min_eqI) auto
  moreover have "Min (set fits') \<le> f0" using f0_in' by simp
  ultimately show ?thesis using fits fits' f0_in' by auto
qed

subsection \<open>Random numbers\<close>

lemma validRng_rest: "validRng g \<Longrightarrow> validRng (rest g)"
  by (simp add: validRng_def rest_def)

lemma randomBelow_range:
  assumes "validRng g" and "0 < n"
  shows "0 \<le> randomBelow n g \<and> randomBelow n g < n"
proof -
  from assms(1) have g: "0 \<le> g 0" "g 0 < 1" by (auto simp: validRng_def)
  from g(1) assms(2) have "0 \<le> g 0 * of_int n" by simp
  moreover from g(2) assms(2) have "g 0 * of_int n < of_int n" by simp
  ultimately show ?thesis by (simp add: randomBelow_def floor_less_iff)
qed

lemma freshGenes_True: "freshGenes (\<lambda>c. True) params"
  by (simp add: freshGenes_def)

lemma freshGenes_inCluster: "1 \<le> numClusters params \<Longrightarrow> freshGenes (inCluster (numClusters params)) params"
  using randomBelow_range[of _ "numClusters params"] by (auto simp: freshGenes_def inCluster_def)

subsection \<open>The shape of the individuals\<close>

lemma randomIndividual_good:
  assumes "freshGenes Q params"
  shows "randomIndividual (numClusters params) ns g = (ind, g') \<Longrightarrow> validRng g
     \<Longrightarrow> goodIndividual Q (length ns) ind \<and> validRng g'"
proof (induction ns arbitrary: g ind)
  case Nil
  then show ?case by (simp add: goodIndividual_def)
next
  case (Cons n ns)
  from Cons.prems(1) obtain cs where
    r: "randomIndividual (numClusters params) ns (rest g) = (cs, g')"
    and ind: "ind = Some (randomBelow (numClusters params) g) # cs"
    by (auto simp: Let_def split: prod.splits)
  from Cons.IH[OF r validRng_rest[OF Cons.prems(2)]]
  have "goodIndividual Q (length ns) cs" "validRng g'" by auto
  moreover have "Q (Some (randomBelow (numClusters params) g))"
    using assms Cons.prems(2) by (simp add: freshGenes_def)
  ultimately show ?case by (simp add: ind goodIndividual_def)
qed

lemma initializeLoop_good:
  assumes "freshGenes Q params"
  shows "initializeLoop i params ns g = (pop, g') \<Longrightarrow> validRng g
     \<Longrightarrow> length pop = i \<and> (\<forall>ind\<in>set pop. goodIndividual Q (length ns) ind) \<and> validRng g'"
proof (induction i arbitrary: g pop)
  case 0
  then show ?case by simp
next
  case (Suc i)
  from Suc.prems(1) obtain ind g1 rest_pop where
    a: "randomIndividual (numClusters params) ns g = (ind, g1)"
    and b: "initializeLoop i params ns g1 = (rest_pop, g')"
    and pop: "pop = ind # rest_pop"
    by (auto simp: Let_def split: prod.splits)
  from randomIndividual_good[OF assms a Suc.prems(2)]
  have 1: "goodIndividual Q (length ns) ind" "validRng g1" by auto
  from Suc.IH[OF b 1(2)] 1(1) show ?case by (simp add: pop)
qed

lemma gene_in_set: "i < length ind \<Longrightarrow> gene ind i \<in> set ind"
  by (simp add: gene_def)

lemma crossoverFrom_good:
  "crossoverFrom i a b g = (c, g') \<Longrightarrow> i + length a \<le> length b \<Longrightarrow>
     length c = length a \<and> set c \<subseteq> set a \<union> set b \<and> (validRng g \<longrightarrow> validRng g')"
proof (induction a arbitrary: i g c)
  case Nil
  then show ?case by simp
next
  case (Cons x xs)
  from Cons.prems(1) obtain cs where
    r: "crossoverFrom (Suc i) xs b (rest g) = (cs, g')"
    and c: "c = (if g 0 < 1 / 2 then x else gene b i) # cs"
    by (auto simp: Let_def split: prod.splits)
  from Cons.prems(2) have "i < length b" "Suc i + length xs \<le> length b" by auto
  from Cons.IH[OF r this(2)] gene_in_set[OF this(1)]
  show ?case by (auto simp: c validRng_rest)
qed

lemma crossover_good:
  assumes "crossover a b g = (c, g')" "goodIndividual Q n a" "goodIndividual Q n b"
  shows "goodIndividual Q n c \<and> (validRng g \<longrightarrow> validRng g')"
proof -
  from assms(2,3) have "0 + length a \<le> length b" by (simp add: goodIndividual_def)
  from crossoverFrom_good[OF assms(1)[unfolded crossover_def] this] assms(2,3)
  show ?thesis by (auto simp: goodIndividual_def)
qed

lemma mutate_good:
  assumes "freshGenes Q params"
  shows "mutate params a g = (c, g') \<Longrightarrow> validRng g \<Longrightarrow> goodIndividual Q n a
     \<Longrightarrow> goodIndividual Q n c \<and> validRng g'"
proof (induction a arbitrary: g c n)
  case Nil
  then show ?case by simp
next
  case (Cons x xs)
  from Cons.prems(3) obtain m where n: "n = Suc m" and xs: "goodIndividual Q m xs" and x: "Q x"
    by (auto simp: goodIndividual_def)
  show ?case
  proof (cases "g 0 < mutationRate params")
    case True
    with Cons.prems(1) obtain cs where
      r: "mutate params xs (rest (rest g)) = (cs, g')"
      and c: "c = Some (randomBelow (numClusters params) (rest g)) # cs"
      by (auto simp: Let_def split: prod.splits)
    have v: "validRng (rest g)" "validRng (rest (rest g))"
      using Cons.prems(2) by (simp_all add: validRng_rest)
    from Cons.IH[OF r v(2) xs] assms v(1) show ?thesis
      by (auto simp: c n goodIndividual_def freshGenes_def)
  next
    case False
    with Cons.prems(1) obtain cs where
      r: "mutate params xs (rest g) = (cs, g')" and c: "c = x # cs"
      by (auto simp: Let_def split: prod.splits)
    from Cons.IH[OF r validRng_rest[OF Cons.prems(2)] xs] x show ?thesis
      by (auto simp: c n goodIndividual_def)
  qed
qed

subsection \<open>Tournament selection\<close>

lemma pick_member: "pick sp g = Inr (e, g') \<Longrightarrow> e \<in> set sp \<and> g' = rest g"
  by (auto simp: pick_def Let_def split: if_splits)

lemma pick_returns: "sp \<noteq> [] \<Longrightarrow> validRng g \<Longrightarrow> \<exists>e. pick sp g = Inr (e, rest g)"
  using randomBelow_range[of g "int (length sp)"] by (auto simp: pick_def Let_def)

lemma tournamentRounds_member:
  "tournamentRounds i sp best g = Inr (b, g') \<Longrightarrow> best \<in> set sp
     \<Longrightarrow> b \<in> set sp \<and> (validRng g \<longrightarrow> validRng g')"
proof (induction i arbitrary: best g)
  case 0
  then show ?case by simp
next
  case (Suc i)
  from Suc.prems(1) obtain cand g1 where p: "pick sp g = Inr (cand, g1)"
    and r: "tournamentRounds i sp (if snd cand < snd best then cand else best) g1 = Inr (b, g')"
    by (auto split: sum.splits)
  from pick_member[OF p] have "cand \<in> set sp" "g1 = rest g" by auto
  with Suc.IH[OF r] Suc.prems(2) show ?case by (auto simp: validRng_rest)
qed

lemma tournamentRounds_returns:
  "sp \<noteq> [] \<Longrightarrow> validRng g \<Longrightarrow> \<exists>b g'. tournamentRounds i sp best g = Inr (b, g')"
proof (induction i arbitrary: best g)
  case 0
  then show ?case by simp
next
  case (Suc i)
  from pick_returns[OF Suc.prems] obtain e where "pick sp g = Inr (e, rest g)" ..
  with Suc.IH[OF Suc.prems(1) validRng_rest[OF Suc.prems(2)]] show ?case by simp
qed

lemma tournamentSelect_member:
  assumes "tournamentSelect sp g = Inr (p, g')"
  shows "p \<in> fst ` set sp \<and> (validRng g \<longrightarrow> validRng g')"
proof -
  from assms obtain best g1 b where p: "pick sp g = Inr (best, g1)"
    and t: "tournamentRounds 3 sp best g1 = Inr (b, g')" and pb: "p = fst b"
    by (auto simp: tournamentSelect_def bindR_def split: sum.splits)
  from pick_member[OF p] have "best \<in> set sp" "g1 = rest g" by auto
  with tournamentRounds_member[OF t] pb show ?thesis by (auto simp: validRng_rest)
qed

lemma tournamentSelect_returns:
  assumes "sp \<noteq> []" "validRng g"
  shows "\<exists>p g'. tournamentSelect sp g = Inr (p, g')"
proof -
  from pick_returns[OF assms] obtain e where e: "pick sp g = Inr (e, rest g)" ..
  from tournamentRounds_returns[OF assms(1) validRng_rest[OF assms(2)], of 3 e]
  obtain b g' where "tournamentRounds 3 sp e (rest g) = Inr (b, g')" by blast
  with e show ?thesis by (simp add: tournamentSelect_def bindR_def)
qed

subsection \<open>Breeding and evolving\<close>

lemma breed_good:
  assumes fresh: "freshGenes Q params"
    and sp: "\<forall>p\<in>set sp. goodIndividual Q n (fst p)"
  shows "breed i params sp newPop g = Inr (pop', g') \<Longrightarrow> validRng g
     \<Longrightarrow> \<forall>ind\<in>set newPop. goodIndividual Q n ind
     \<Longrightarrow> length pop' = length newPop + i \<and> (\<forall>ind\<in>set pop'. goodIndividual Q n ind) \<and> validRng g'"
proof (induction i arbitrary: newPop g)
  case 0
  then show ?case by simp
next
  case (Suc i)
  from Suc.prems(1) obtain parentA g1 parentB g2 child g3 child' g4 where
    a: "tournamentSelect sp g = Inr (parentA, g1)"
    and b: "tournamentSelect sp g1 = Inr (parentB, g2)"
    and c: "crossover parentA parentB g2 = (child, g3)"
    and m: "mutate params child g3 = (child', g4)"
    and r: "breed i params sp (newPop @ [child']) g4 = Inr (pop', g')"
    by (auto simp: Let_def split: sum.splits prod.splits)
  from tournamentSelect_member[OF a] sp Suc.prems(2)
  have A: "goodIndividual Q n parentA" "validRng g1" by auto
  from tournamentSelect_member[OF b] sp A(2)
  have B: "goodIndividual Q n parentB" "validRng g2" by auto
  from crossover_good[OF c A(1) B(1)] B(2)
  have C: "goodIndividual Q n child" "validRng g3" by auto
  from mutate_good[OF fresh m C(2) C(1)]
  have M: "goodIndividual Q n child'" "validRng g4" by auto
  from Suc.IH[OF r M(2)] Suc.prems(3) M(1) show ?case by auto
qed

lemma breed_returns:
  assumes fresh: "freshGenes Q params"
    and sp: "\<forall>p\<in>set sp. goodIndividual Q n (fst p)" and ne: "sp \<noteq> []"
  shows "validRng g \<Longrightarrow> \<exists>pop' g'. breed i params sp newPop g = Inr (pop', g')"
proof (induction i arbitrary: newPop g)
  case 0
  then show ?case by simp
next
  case (Suc i)
  from tournamentSelect_returns[OF ne Suc.prems] obtain parentA g1 where
    a: "tournamentSelect sp g = Inr (parentA, g1)" by blast
  from tournamentSelect_member[OF a] sp Suc.prems
  have A: "goodIndividual Q n parentA" "validRng g1" by auto
  from tournamentSelect_returns[OF ne A(2)] obtain parentB g2 where
    b: "tournamentSelect sp g1 = Inr (parentB, g2)" by blast
  from tournamentSelect_member[OF b] sp A(2)
  have B: "goodIndividual Q n parentB" "validRng g2" by auto
  obtain child g3 where c: "crossover parentA parentB g2 = (child, g3)"
    by (cases "crossover parentA parentB g2")
  from crossover_good[OF c A(1) B(1)] B(2)
  have C: "goodIndividual Q n child" "validRng g3" by auto
  obtain child' g4 where m: "mutate params child g3 = (child', g4)"
    by (cases "mutate params child g3")
  from mutate_good[OF fresh m C(2) C(1)] have "validRng g4" by simp
  from Suc.IH[OF this, of "newPop @ [child']"] a b c m show ?case by simp
qed

lemma mapE_fitness:
  "arrayLength (numClusters params) \<Longrightarrow>
     \<exists>fits. mapE (calculateFitness params ns ls) population = Inr fits"
  by (rule mapE_total) (rule calculateFitness_defined)

lemma sortedPop_good:
  assumes "mapE f population = Inr fits" and "\<forall>ind\<in>set population. goodIndividual Q n ind"
  shows "\<forall>p\<in>set (sort_key snd (zip population fits)). goodIndividual Q n (fst p)"
  using assms(2) by (auto dest: set_zip_leftD)

lemma sortedPop_nonempty:
  assumes "mapE f population = Inr fits" and "population \<noteq> []"
  shows "sort_key snd (zip population fits) \<noteq> []"
proof -
  from mapE_Inr_length[OF assms(1)] assms(2) have "zip population fits \<noteq> []"
    by (cases population; cases fits) auto
  then show ?thesis by (metis length_0_conv length_sort)
qed

lemma elite_nonempty:
  "sp \<noteq> [] \<Longrightarrow> map fst (take (nat (max 2 (populationSize params div 10))) sp) \<noteq> []"
proof -
  assume "sp \<noteq> []"
  obtain m where m: "nat (max 2 (populationSize params div 10)) = Suc m"
    by (cases "nat (max 2 (populationSize params div 10))") (auto simp: max_def split: if_splits)
  show ?thesis unfolding m using \<open>sp \<noteq> []\<close> by (cases sp) auto
qed

lemma evolve_good:
  assumes fresh: "freshGenes Q params"
    and run: "evolve params ns ls population g = Inr (pop', g')"
    and ne: "population \<noteq> []" and good: "\<forall>ind\<in>set population. goodIndividual Q n ind"
    and rng: "validRng g"
  shows "pop' \<noteq> [] \<and> (\<forall>ind\<in>set pop'. goodIndividual Q n ind) \<and> validRng g'"
proof -
  from run obtain fits where fits: "mapE (calculateFitness params ns ls) population = Inr fits"
    by (auto simp: evolve_def split: sum.splits)
  let ?sp = "sort_key snd (zip population fits)"
  let ?elite = "map fst (take (nat (max 2 (populationSize params div 10))) ?sp)"
  from run fits have b:
    "breed (nat (populationSize params - int (length ?elite))) params ?sp ?elite g = Inr (pop', g')"
    by (simp add: evolve_def Let_def)
  have sp: "\<forall>p\<in>set ?sp. goodIndividual Q n (fst p)" by (rule sortedPop_good[OF fits good])
  have el: "\<forall>ind\<in>set ?elite. goodIndividual Q n ind"
  proof
    fix ind assume "ind \<in> set ?elite"
    then obtain p where "p \<in> set (take (nat (max 2 (populationSize params div 10))) ?sp)"
      "ind = fst p" by auto
    then have "p \<in> set ?sp" "ind = fst p" by (auto dest: in_set_takeD)
    with sp show "goodIndividual Q n ind" by blast
  qed
  have "?elite \<noteq> []" by (rule elite_nonempty[OF sortedPop_nonempty[OF fits ne]])
  moreover from breed_extends[OF b] obtain children where "pop' = ?elite @ children" ..
  ultimately have "pop' \<noteq> []" by simp
  with breed_good[OF fresh sp b rng el] show ?thesis by simp
qed

lemma evolve_returns:
  assumes fresh: "freshGenes Q params"
    and al: "arrayLength (numClusters params)"
    and ne: "population \<noteq> []" and good: "\<forall>ind\<in>set population. goodIndividual Q n ind"
    and rng: "validRng g"
  shows "\<exists>pop' g'. evolve params ns ls population g = Inr (pop', g')"
proof -
  from mapE_fitness[OF al] obtain fits where
    fits: "mapE (calculateFitness params ns ls) population = Inr fits" by blast
  let ?sp = "sort_key snd (zip population fits)"
  have sp: "\<forall>p\<in>set ?sp. goodIndividual Q n (fst p)" by (rule sortedPop_good[OF fits good])
  from breed_returns[OF fresh sp sortedPop_nonempty[OF fits ne] rng] fits
  show ?thesis by (simp add: evolve_def Let_def)
qed

lemma generationsLoop_good:
  assumes fresh: "freshGenes Q params"
  shows "generationsLoop i params ns ls population g = Inr (pop', g') \<Longrightarrow> population \<noteq> []
     \<Longrightarrow> \<forall>ind\<in>set population. goodIndividual Q n ind \<Longrightarrow> validRng g
     \<Longrightarrow> pop' \<noteq> [] \<and> (\<forall>ind\<in>set pop'. goodIndividual Q n ind) \<and> validRng g'"
proof (induction i arbitrary: population g)
  case 0
  then show ?case by simp
next
  case (Suc i)
  from Suc.prems(1) obtain p1 g1 where e: "evolve params ns ls population g = Inr (p1, g1)"
    and r: "generationsLoop i params ns ls p1 g1 = Inr (pop', g')"
    by (auto split: sum.splits)
  from evolve_good[OF fresh e Suc.prems(2,3,4)] Suc.IH[OF r] show ?case by blast
qed

lemma generationsLoop_returns:
  assumes fresh: "freshGenes Q params" and al: "arrayLength (numClusters params)"
  shows "population \<noteq> [] \<Longrightarrow> \<forall>ind\<in>set population. goodIndividual Q n ind \<Longrightarrow> validRng g
     \<Longrightarrow> \<exists>pop' g'. generationsLoop i params ns ls population g = Inr (pop', g')"
proof (induction i arbitrary: population g)
  case 0
  then show ?case by simp
next
  case (Suc i)
  from evolve_returns[OF fresh al Suc.prems] obtain p1 g1 where
    e: "evolve params ns ls population g = Inr (p1, g1)" by blast
  from evolve_good[OF fresh e Suc.prems] Suc.IH[of p1 g1] e show ?case by auto
qed

subsection \<open>The best individual\<close>

lemma bestLoop_member:
  "bestLoop params ns ls inds best = Inr res \<Longrightarrow>
     individualB res = individualB best \<or> (\<exists>ind\<in>set inds. individualB res = Some ind)"
proof (induction inds arbitrary: best)
  case Nil
  then show ?case by simp
next
  case (Cons ind inds)
  from Cons.prems obtain fit where
    r: "bestLoop params ns ls inds
          (if lessJ (Num fit) (fitnessB best) then \<lparr>individualB = Some ind, fitnessB = Num fit\<rparr>
           else best) = Inr res"
    by (auto split: sum.splits)
  from Cons.IH[OF r] show ?case by (auto split: if_splits)
qed

lemma bestLoop_returns:
  "arrayLength (numClusters params) \<Longrightarrow> \<exists>res. bestLoop params ns ls inds best = Inr res"
proof (induction inds arbitrary: best)
  case Nil
  then show ?case by simp
next
  case (Cons ind inds)
  from calculateFitness_defined[OF Cons.prems] obtain v where
    "calculateFitness params ns ls ind = Inr v" by blast
  with Cons.IH[OF Cons.prems] show ?case by simp
qed

lemma bestLoop_arrayLength:
  "bestLoop params ns ls inds best = Inr res \<Longrightarrow> inds \<noteq> [] \<Longrightarrow> arrayLength (numClusters params)"
  by (cases inds) (auto split: sum.splits dest: calculateFitness_arrayLength)

lemma getBestResult_member:
  assumes "getBestResult params ns ls population = Inr res" and "population \<noteq> []"
  shows "\<exists>ind\<in>set population. individualB res = Some ind"
  using bestLoop_member[OF assms(1)[unfolded getBestResult_def]] assms(2)
  by (cases population) auto

lemma getBestResult_empty:
  "getBestResult params ns ls [] = Inr \<lparr>individualB = None, fitnessB = Infinity\<rparr>"
  by (simp add: getBestResult_def)

lemma getBestResult_returns:
  "arrayLength (numClusters params) \<Longrightarrow> \<exists>res. getBestResult params ns ls population = Inr res"
  unfolding getBestResult_def by (rule bestLoop_returns)

subsection \<open>Attempts\<close>

lemma initialize_good:
  assumes "freshGenes Q params" and "initialize params ns g = (pop, g')" and "validRng g"
  shows "length pop = nat (populationSize params)
       \<and> (\<forall>ind\<in>set pop. goodIndividual Q (length ns) ind) \<and> validRng g'"
  using initializeLoop_good[OF assms(1) assms(2)[unfolded initialize_def] assms(3)] .

lemma runAttempt_good:
  assumes fresh: "freshGenes Q params"
    and run: "runAttempt params ns ls g = Inr (res, g')"
    and ps: "1 \<le> populationSize params" and rng: "validRng g"
  shows "goodBest Q (length ns) res \<and> validRng g'"
proof -
  obtain pop g1 where i: "initialize params ns g = (pop, g1)" by (cases "initialize params ns g")
  from initialize_good[OF fresh i rng] ps
  have I: "pop \<noteq> []" "\<forall>ind\<in>set pop. goodIndividual Q (length ns) ind" "validRng g1" by auto
  from run i obtain pop' where
    l: "generationsLoop (nat (generations params)) params ns ls pop g1 = Inr (pop', g')"
    and b: "getBestResult params ns ls pop' = Inr res"
    by (auto simp: runAttempt_def split: sum.splits)
  from generationsLoop_good[OF fresh l I]
  have L: "pop' \<noteq> []" "\<forall>ind\<in>set pop'. goodIndividual Q (length ns) ind" "validRng g'" by auto
  from getBestResult_member[OF b L(1)] L(2,3) show ?thesis by (auto simp: goodBest_def)
qed

lemma runAttempt_returns:
  assumes fresh: "freshGenes Q params" and al: "arrayLength (numClusters params)"
    and ps: "1 \<le> populationSize params" and rng: "validRng g"
  shows "\<exists>res g'. runAttempt params ns ls g = Inr (res, g')"
proof -
  obtain pop g1 where i: "initialize params ns g = (pop, g1)" by (cases "initialize params ns g")
  from initialize_good[OF fresh i rng] ps
  have I: "pop \<noteq> []" "\<forall>ind\<in>set pop. goodIndividual Q (length ns) ind" "validRng g1" by auto
  from generationsLoop_returns[OF fresh al I] obtain pop' g' where
    l: "generationsLoop (nat (generations params)) params ns ls pop g1 = Inr (pop', g')" by blast
  from getBestResult_returns[OF al] obtain res where
    "getBestResult params ns ls pop' = Inr res" by blast
  with i l show ?thesis by (simp add: runAttempt_def)
qed

lemma attemptLoop_good:
  assumes fresh: "freshGenes Q params" and ps: "1 \<le> populationSize params"
  shows "attemptLoop a params ns ls best g = Inr (best', g') \<Longrightarrow> validRng g
     \<Longrightarrow> (\<forall>b. best = Some b \<longrightarrow> goodBest Q (length ns) b)
     \<Longrightarrow> (\<forall>b. best' = Some b \<longrightarrow> goodBest Q (length ns) b)"
proof (induction a arbitrary: best g)
  case 0
  then show ?case by simp
next
  case (Suc a)
  from Suc.prems(1) obtain res g1 where r: "runAttempt params ns ls g = Inr (res, g1)"
    and l: "attemptLoop a params ns ls
              (case best of None \<Rightarrow> Some res
               | Some b \<Rightarrow> if lessJ (fitnessB res) (fitnessB b) then Some res else Some b)
              g1 = Inr (best', g')"
    by (auto split: sum.splits)
  from runAttempt_good[OF fresh r ps Suc.prems(2)]
  have R: "goodBest Q (length ns) res" "validRng g1" by auto
  show ?case
    by (rule Suc.IH[OF l R(2)]) (use R(1) Suc.prems(3) in \<open>auto split: option.splits if_splits\<close>)
qed

lemma attemptLoop_Some:
  "attemptLoop a params ns ls best g = Inr (best', g') \<Longrightarrow> 0 < a \<or> best \<noteq> None \<Longrightarrow> best' \<noteq> None"
proof (induction a arbitrary: best g)
  case 0
  then show ?case by simp
next
  case (Suc a)
  from Suc.prems(1) obtain res g1 where
    l: "attemptLoop a params ns ls
              (case best of None \<Rightarrow> Some res
               | Some b \<Rightarrow> if lessJ (fitnessB res) (fitnessB b) then Some res else Some b)
              g1 = Inr (best', g')"
    by (auto split: sum.splits)
  show ?case by (rule Suc.IH[OF l]) (auto split: option.splits)
qed

lemma attemptLoop_returns:
  assumes fresh: "freshGenes Q params" and al: "arrayLength (numClusters params)"
    and ps: "1 \<le> populationSize params"
  shows "validRng g \<Longrightarrow> \<exists>best' g'. attemptLoop a params ns ls best g = Inr (best', g')"
proof (induction a arbitrary: best g)
  case 0
  then show ?case by simp
next
  case (Suc a)
  from runAttempt_returns[OF fresh al ps Suc.prems] obtain res g1 where
    r: "runAttempt params ns ls g = Inr (res, g1)" by blast
  from runAttempt_good[OF fresh r ps Suc.prems] have "validRng g1" by simp
  from Suc.IH[OF this] r show ?case by simp
qed

subsection \<open>The nodes handed to the optimizers\<close>

lemma resolveTargets_stateOK:
  "resolveTargets depth buildings targets = Some st \<Longrightarrow> stateOK st"
  unfolding resolveTargets_def
  by (erule forEachM_invariant[where I = stateOK]) (auto simp: stateOK_empty intro: traverse_stateOK)

lemma calculateRequirements_distinct_names:
  assumes "calculateRequirements depth buildings targets = Some res"
  shows "distinct (map name (nodes res))"
proof -
  from assms obtain st where st: "resolveTargets depth buildings targets = Some st"
    and res: "nodes res = map snd (nodesMap st)"
    by (auto simp: calculateRequirements_def split: option.splits)
  from resolveTargets_stateOK[OF st] have ok: "stateOK st" .
  then have "map (name \<circ> snd) (nodesMap st) = map fst (nodesMap st)"
    by (intro map_cong) (auto simp: stateOK_def)
  then have "map name (nodes res) = map fst (nodesMap st)" by (simp add: res)
  moreover from ok have "distinct (map fst (nodesMap st))" by (simp add: stateOK_def)
  ultimately show ?thesis by (simp only:)
qed

lemma idM_toMachineNode [simp]: "idM (toMachineNode n) = name n"
  by (simp add: toMachineNode_def)

lemma clusterId_toMachineNode [simp]: "clusterId (toMachineNode n) = None"
  by (simp add: toMachineNode_def)

lemma distinct_machine_ids:
  "calculateRequirements depth buildings targets = Some res
   \<Longrightarrow> distinct (map idM (map toMachineNode (nodes res)))"
  by (drule calculateRequirements_distinct_names) (simp add: comp_def)

subsection \<open>Summing the cross flow\<close>

lemma fold_cond_sum:
  "fold (\<lambda>l acc. if P l then acc + valueL l else acc) ls a
     = a + sum_list (map valueL (filter P ls))"
  by (induction ls arbitrary: a) auto

lemma map_of_rev_distinct: "distinct (map fst es) \<Longrightarrow> map_of (rev es) = map_of es"
  by (subst map_of_inject_set) (simp_all add: rev_map[symmetric])

lemma fst_set_zip_upt: "fst ` set (zip xs [0..<length xs]) = set xs"
proof -
  have "fst ` set (zip xs [0..<length xs]) = set (map fst (zip xs [0..<length xs]))"
    by (simp only: set_map)
  also have "\<dots> = set xs" by (simp only: map_fst_zip length_upt diff_zero)
  finally show ?thesis .
qed

lemma nodeIndexMap_Some:
  assumes "distinct (map idM ns)"
  shows "nodeIndexMap ns k = Some i \<longleftrightarrow> i < length ns \<and> idM (ns ! i) = k"
proof -
  let ?es = "zip (map idM ns) [0..<length ns]"
  have d: "distinct (map fst ?es)" using assms by simp
  have "nodeIndexMap ns k = map_of ?es k"
    unfolding nodeIndexMap_def mapOfEntries_def using d by (simp add: map_of_rev_distinct)
  also have "\<dots> = Some i \<longleftrightarrow> (k, i) \<in> set ?es"
    using d by (metis map_of_SomeD map_of_is_SomeI)
  also have "\<dots> \<longleftrightarrow> i < length ns \<and> idM (ns ! i) = k"
  proof
    assume "(k, i) \<in> set ?es"
    then show "i < length ns \<and> idM (ns ! i) = k" by (auto simp: set_zip)
  next
    assume a: "i < length ns \<and> idM (ns ! i) = k"
    then have "?es ! i = (k, i)" by simp
    moreover have "i < length ?es" using a by simp
    ultimately show "(k, i) \<in> set ?es" by (metis nth_mem)
  qed
  finally show ?thesis .
qed

lemma nodeIndexMap_None:
  "nodeIndexMap ns k = None \<longleftrightarrow> k \<notin> idM ` set ns"
proof -
  have "map_of (rev (zip (map idM ns) [0..<length ns])) k = None
        \<longleftrightarrow> k \<notin> fst ` set (rev (zip (map idM ns) [0..<length ns]))"
    by (rule map_of_eq_None_iff)
  then show ?thesis
    using fst_set_zip_upt[of "map idM ns"] by (simp add: nodeIndexMap_def mapOfEntries_def)
qed

subsection \<open>The result of runGeneticOptimization\<close>

lemma assignClusters_Some:
  "assignClusters (Some ind) ns = Inr ns' \<Longrightarrow>
     length ns' = length ns \<and> map idM ns' = map idM ns
     \<and> (\<forall>i<length ns. clusterId (ns' ! i) = gene ind i)"
  by (auto simp: assignClusters_def intro: nth_equalityI)

lemma assignClusters_None: "assignClusters None ns = Inr ns' \<Longrightarrow> ns = [] \<and> ns' = []"
  by (auto simp: assignClusters_def split: if_splits)

lemma crossFlowStep_Some:
  "crossFlowStep ns (Some ind) l (Inr a) =
     Inr (if (case (nodeIndexMap ns (source l), nodeIndexMap ns (target l)) of
                (Some sIdx, Some tIdx) \<Rightarrow> gene ind sIdx \<noteq> gene ind tIdx
              | _ \<Rightarrow> False)
          then a + valueL l else a)"
  by (simp add: crossFlowStep_def split: option.splits)

lemma fold_crossFlowStep_Some:
  "fold (crossFlowStep ns (Some ind)) ls (Inr a) =
     Inr (a + sum_list (map valueL (filter
        (\<lambda>l. case (nodeIndexMap ns (source l), nodeIndexMap ns (target l)) of
                (Some sIdx, Some tIdx) \<Rightarrow> gene ind sIdx \<noteq> gene ind tIdx
              | _ \<Rightarrow> False) ls)))"
  by (induction ls arbitrary: a) (simp_all add: crossFlowStep_Some)

lemma fold_crossFlowStep_no_nodes:
  "fold (crossFlowStep [] individual) ls (Inr a) = Inr a"
  by (induction ls) (simp_all add: crossFlowStep_def nodeIndexMap_def mapOfEntries_def)

lemma crossing_by_index:
  assumes d: "distinct (map idM ns)" and c: "\<forall>i<length ns. clusterId (ns ! i) = gene ind i"
  shows "crossing ns l \<longleftrightarrow>
     (case (nodeIndexMap ns (source l), nodeIndexMap ns (target l)) of
        (Some sIdx, Some tIdx) \<Rightarrow> gene ind sIdx \<noteq> gene ind tIdx
      | _ \<Rightarrow> False)"
proof
  assume "crossing ns l"
  then obtain s t where st: "s \<in> set ns" "t \<in> set ns" "idM s = source l" "idM t = target l"
    "clusterId s \<noteq> clusterId t" by (auto simp: crossing_def)
  then obtain i j where ij: "i < length ns" "ns ! i = s" "j < length ns" "ns ! j = t"
    by (auto simp: in_set_conv_nth)
  with st have "nodeIndexMap ns (source l) = Some i" "nodeIndexMap ns (target l) = Some j"
    by (auto simp: nodeIndexMap_Some[OF d])
  moreover from c ij st(5) have "gene ind i \<noteq> gene ind j" by auto
  ultimately show "case (nodeIndexMap ns (source l), nodeIndexMap ns (target l)) of
        (Some sIdx, Some tIdx) \<Rightarrow> gene ind sIdx \<noteq> gene ind tIdx | _ \<Rightarrow> False" by simp
next
  assume "case (nodeIndexMap ns (source l), nodeIndexMap ns (target l)) of
        (Some sIdx, Some tIdx) \<Rightarrow> gene ind sIdx \<noteq> gene ind tIdx | _ \<Rightarrow> False"
  then obtain i j where ij: "nodeIndexMap ns (source l) = Some i"
    "nodeIndexMap ns (target l) = Some j" "gene ind i \<noteq> gene ind j"
    by (auto split: option.splits)
  then have "i < length ns" "idM (ns ! i) = source l" "j < length ns" "idM (ns ! j) = target l"
    by (auto simp: nodeIndexMap_Some[OF d])
  moreover with c ij(3) have "clusterId (ns ! i) \<noteq> clusterId (ns ! j)" by simp
  ultimately show "crossing ns l" unfolding crossing_def by (meson nth_mem)
qed

lemma runGeneticOptimization_Inr:
  assumes "runGeneticOptimization depth buildings targets params attempts g = Inr res"
  shows "\<exists>raw best g' ns' flow.
    calculateRequirements depth buildings targets = Some raw
    \<and> attemptLoop (nat attempts) params (map toMachineNode (nodes raw))
       (map toMachineLink (links raw)) None g = Inr (Some best, g')
    \<and> assignClusters (individualB best) (map toMachineNode (nodes raw)) = Inr ns'
    \<and> fold (crossFlowStep ns' (individualB best)) (map toMachineLink (links raw)) (Inr 0) = Inr flow
    \<and> res = \<lparr>nodesR = ns', linksR = map toMachineLink (links raw),
            clusters = groupByCluster ns', stats = Some \<lparr>totalCrossFlow = flow\<rparr>\<rparr>"
  using assms
  by (auto simp: runGeneticOptimization_def Let_def split: option.splits sum.splits)

subsection \<open>Which errors the search can end in\<close>

lemma calculateFitness_error: "calculateFitness params ns ls ind = Inl e \<Longrightarrow> e = RangeError"
  by (auto simp: calculateFitness_def Let_def split: if_splits)

lemma mapE_error: "mapE f xs = Inl e \<Longrightarrow> \<exists>x\<in>set xs. f x = Inl e"
  by (induction xs) (auto split: sum.splits)

lemma pick_error: "pick sp g = Inl e \<Longrightarrow> e = TypeError"
  by (auto simp: pick_def Let_def split: if_splits)

lemma tournamentRounds_error: "tournamentRounds i sp best g = Inl e \<Longrightarrow> e = TypeError"
proof (induction i arbitrary: best g)
  case 0
  then show ?case by simp
next
  case (Suc i)
  show ?case
  proof (cases "pick sp g")
    case (Inl e')
    with Suc.prems show ?thesis by (auto dest: pick_error)
  next
    case (Inr r)
    obtain cand g1 where "r = (cand, g1)" by (cases r)
    with Inr Suc.prems show ?thesis by (auto intro: Suc.IH)
  qed
qed

lemma tournamentSelect_error: "tournamentSelect sp g = Inl e \<Longrightarrow> e = TypeError"
  by (auto simp: tournamentSelect_def bindR_def split: sum.splits
        dest: pick_error tournamentRounds_error)

lemma breed_error: "breed i params sp newPop g = Inl e \<Longrightarrow> e = TypeError"
proof (induction i arbitrary: newPop g)
  case 0
  then show ?case by simp
next
  case (Suc i)
  then show ?case
    by (auto simp: Let_def split: sum.splits prod.splits dest: tournamentSelect_error)
qed

lemma evolve_error: "evolve params ns ls population g = Inl e \<Longrightarrow> e \<noteq> OptimizationFailed"
  by (auto simp: evolve_def Let_def split: sum.splits
        dest!: mapE_error calculateFitness_error breed_error)

lemma generationsLoop_error:
  "generationsLoop i params ns ls population g = Inl e \<Longrightarrow> e \<noteq> OptimizationFailed"
proof (induction i arbitrary: population g)
  case 0
  then show ?case by simp
next
  case (Suc i)
  then show ?case by (auto split: sum.splits dest: evolve_error)
qed

lemma bestLoop_error: "bestLoop params ns ls inds best = Inl e \<Longrightarrow> e = RangeError"
  by (induction inds arbitrary: best) (auto split: sum.splits dest: calculateFitness_error)

lemma runAttempt_error: "runAttempt params ns ls g = Inl e \<Longrightarrow> e \<noteq> OptimizationFailed"
  by (auto simp: runAttempt_def getBestResult_def split: sum.splits prod.splits
        dest: generationsLoop_error bestLoop_error)

lemma attemptLoop_error:
  "attemptLoop a params ns ls best g = Inl e \<Longrightarrow> e \<noteq> OptimizationFailed"
proof (induction a arbitrary: best g)
  case 0
  then show ?case by simp
next
  case (Suc a)
  then show ?case by (auto split: sum.splits dest: runAttempt_error)
qed

lemma fold_crossFlowStep_error:
  "fold (crossFlowStep ns individual) ls acc = Inl e \<Longrightarrow> acc = Inl e \<or> e = TypeError"
proof (induction ls arbitrary: acc)
  case Nil
  then show ?case by simp
next
  case (Cons l ls)
  from Cons.IH[OF Cons.prems[simplified]] show ?case
    by (auto simp: crossFlowStep_def split: sum.splits option.splits if_splits)
qed

lemma assignClusters_error: "assignClusters individual ns = Inl e \<Longrightarrow> e = TypeError"
  by (auto simp: assignClusters_def split: option.splits if_splits)

lemma ga_totalCrossFlow:
  assumes "runGeneticOptimization depth buildings targets params attempts g = Inr res"
  shows "stats res = Some \<lparr>totalCrossFlow = statedCrossFlow (nodesR res) (linksR res)\<rparr>"
proof -
  from runGeneticOptimization_Inr[OF assms]
  obtain raw :: SankeyData and best :: BestResult and ns' flow where
    raw: "calculateRequirements depth buildings targets = Some raw"
    and asg: "assignClusters (individualB best) (map toMachineNode (nodes raw)) = Inr ns'"
    and fl: "fold (crossFlowStep ns' (individualB best)) (map toMachineLink (links raw)) (Inr 0)
               = Inr flow"
    and res: "res = \<lparr>nodesR = ns', linksR = map toMachineLink (links raw),
            clusters = groupByCluster ns', stats = Some \<lparr>totalCrossFlow = flow\<rparr>\<rparr>"
    by blast
  let ?ls = "map toMachineLink (links raw)"
  have "flow = statedCrossFlow ns' ?ls"
  proof (cases "individualB best")
    case None
    with asg have "ns' = []" by (auto dest: assignClusters_None)
    with fl show ?thesis
      by (simp add: fold_crossFlowStep_no_nodes statedCrossFlow_def crossing_def)
  next
    case (Some ind)
    from asg Some assignClusters_Some[of ind "map toMachineNode (nodes raw)" ns']
    have ids: "map idM ns' = map idM (map toMachineNode (nodes raw))"
      and len: "length ns' = length (nodes raw)"
      and cl: "\<forall>i<length (nodes raw). clusterId (ns' ! i) = gene ind i" by auto
    from distinct_machine_ids[OF raw] ids have d: "distinct (map idM ns')" by simp
    from cl len have c: "\<forall>i<length ns'. clusterId (ns' ! i) = gene ind i" by simp
    have "filter (crossing ns') ?ls
        = filter (\<lambda>l. case (nodeIndexMap ns' (source l), nodeIndexMap ns' (target l)) of
                (Some sIdx, Some tIdx) \<Rightarrow> gene ind sIdx \<noteq> gene ind tIdx
              | _ \<Rightarrow> False) ?ls"
      by (intro filter_cong refl crossing_by_index[OF d c])
    with fl Some show ?thesis
      by (simp add: fold_crossFlowStep_Some statedCrossFlow_def)
  qed
  then show ?thesis by (simp add: res)
qed

lemma ga_clusterIds_in_range:
  assumes run: "runGeneticOptimization depth buildings targets params attempts g = Inr res"
    and k: "1 \<le> numClusters params" and ps: "1 \<le> populationSize params" and rng: "validRng g"
  shows "\<forall>n\<in>set (nodesR res). \<exists>c. clusterId n = Some c \<and> 0 \<le> c \<and> c < numClusters params"
proof -
  from runGeneticOptimization_Inr[OF run]
  obtain raw :: SankeyData and best :: BestResult and g' ns' flow where
    al: "attemptLoop (nat attempts) params (map toMachineNode (nodes raw))
       (map toMachineLink (links raw)) None g = Inr (Some best, g')"
    and asg: "assignClusters (individualB best) (map toMachineNode (nodes raw)) = Inr ns'"
    and res: "res = \<lparr>nodesR = ns', linksR = map toMachineLink (links raw),
            clusters = groupByCluster ns', stats = Some \<lparr>totalCrossFlow = flow\<rparr>\<rparr>"
    by blast
  from attemptLoop_good[OF freshGenes_inCluster[OF k] ps al rng]
  obtain ind where ind: "individualB best = Some ind"
    and good: "goodIndividual (inCluster (numClusters params)) (length (nodes raw)) ind"
    by (auto simp: goodBest_def)
  from asg ind assignClusters_Some[of ind "map toMachineNode (nodes raw)" ns']
  have len: "length ns' = length (nodes raw)"
    and cl: "\<forall>i<length (nodes raw). clusterId (ns' ! i) = gene ind i" by auto
  show ?thesis
  proof
    fix n assume "n \<in> set (nodesR res)"
    then obtain i where i: "i < length ns'" "ns' ! i = n" by (auto simp: res in_set_conv_nth)
    with cl len have "clusterId n = gene ind i" by auto
    moreover from good i len have "inCluster (numClusters params) (gene ind i)"
      by (auto simp: goodIndividual_def gene_def)
    ultimately show "\<exists>c. clusterId n = Some c \<and> 0 \<le> c \<and> c < numClusters params"
      by (simp add: inCluster_def)
  qed
qed

subsection \<open>How a run of runGeneticOptimization ends\<close>

text \<open>
  Memory is not modelled: an array of any valid length is taken to fit.
\<close>

lemma calculateRequirements_no_targets:
  "calculateRequirements depth buildings [] = Some \<lparr>nodes = [], links = []\<rparr>"
  by (simp add: calculateRequirements_def resolveTargets_def emptyState_def)

lemma calculateRequirements_some_node:
  assumes "calculateRequirements depth buildings targets = Some raw" and "targets \<noteq> []"
  shows "nodes raw \<noteq> []"
proof -
  from assms(1) obtain st where st: "resolveTargets depth buildings targets = Some st"
    and raw: "raw = \<lparr>nodes = map snd (nodesMap st), links = map linkOfEntry (linksMap st)\<rparr>"
    by (auto simp: calculateRequirements_def split: option.splits)
  from assms(2) obtain t ts where t: "targets = t # ts" by (cases targets) auto
  from st t obtain s1 where
    1: "traverse depth buildings (idT t) (amount t) emptyState = Some s1"
    and 2: "forEachM (\<lambda>t. traverse depth buildings (idT t) (amount t)) ts s1 = Some st"
    by (auto simp: resolveTargets_def split: option.splits)
  from traverse_names[OF 1] have "idT t \<in> names s1" by simp
  with 2 have "idT t \<in> names st"
  proof (rule forEachM_invariant[where I = "\<lambda>s. idT t \<in> names s"])
    fix x s s'
    assume "idT t \<in> names s" and "traverse depth buildings (idT x) (amount x) s = Some s'"
    with traverse_names[of depth buildings "idT x" "amount x" s s']
    show "idT t \<in> names s'" by auto
  qed
  then show ?thesis by (auto simp: raw names_def)
qed

lemma initializeLoop_length: "length (fst (initializeLoop n params ns g)) = n"
proof (induction n arbitrary: g)
  case 0
  show ?case by simp
next
  case (Suc n)
  obtain ind g1 where 1: "randomIndividual (numClusters params) ns g = (ind, g1)"
    by (cases "randomIndividual (numClusters params) ns g")
  obtain pop g2 where 2: "initializeLoop n params ns g1 = (pop, g2)"
    by (cases "initializeLoop n params ns g1")
  from Suc.IH[of g1] 1 2 show ?case by simp
qed

lemma calculateFitness_RangeError:
  "\<not> arrayLength (numClusters params) \<Longrightarrow> calculateFitness params ns ls ind = Inl RangeError"
  by (simp add: calculateFitness_def Let_def)

lemma evolve_RangeError:
  assumes "\<not> arrayLength (numClusters params)" and "population \<noteq> []"
  shows "evolve params ns ls population g = Inl RangeError"
proof -
  from assms(2) obtain ind inds where "population = ind # inds" by (cases population) auto
  with calculateFitness_RangeError[OF assms(1)] show ?thesis by (simp add: evolve_def)
qed

lemma getBestResult_RangeError:
  assumes "\<not> arrayLength (numClusters params)" and "population \<noteq> []"
  shows "getBestResult params ns ls population = Inl RangeError"
proof -
  from assms(2) obtain ind inds where "population = ind # inds" by (cases population) auto
  with calculateFitness_RangeError[OF assms(1)] show ?thesis by (simp add: getBestResult_def)
qed

lemma runAttempt_RangeError:
  assumes "\<not> arrayLength (numClusters params)" and "1 \<le> populationSize params"
  shows "runAttempt params ns ls g = Inl RangeError"
proof -
  obtain pop g1 where i: "initialize params ns g = (pop, g1)" by (cases "initialize params ns g")
  with initializeLoop_length[of "nat (populationSize params)" params ns g] assms(2)
  have ne: "pop \<noteq> []" by (auto simp: initialize_def)
  show ?thesis
  proof (cases "nat (generations params)")
    case 0
    with i getBestResult_RangeError[OF assms(1) ne] show ?thesis by (simp add: runAttempt_def)
  next
    case (Suc n)
    with i evolve_RangeError[OF assms(1) ne] show ?thesis by (simp add: runAttempt_def)
  qed
qed

lemma attemptLoop_RangeError:
  assumes "\<not> arrayLength (numClusters params)" and "1 \<le> populationSize params" and "0 < a"
  shows "attemptLoop a params ns ls best g = Inl RangeError"
  using assms(3) runAttempt_RangeError[OF assms(1,2)] by (cases a) simp_all

lemma evolve_no_population:
  "populationSize params \<le> 0 \<Longrightarrow> evolve params ns ls [] g = Inr ([], g)"
  by (simp add: evolve_def)

lemma generationsLoop_no_population:
  "populationSize params \<le> 0 \<Longrightarrow> generationsLoop n params ns ls [] g = Inr ([], g)"
  by (induction n) (simp_all add: evolve_no_population)

lemma runAttempt_no_population:
  "populationSize params \<le> 0 \<Longrightarrow>
     runAttempt params ns ls g = Inr (\<lparr>individualB = None, fitnessB = Infinity\<rparr>, g)"
  by (simp add: runAttempt_def initialize_def generationsLoop_no_population getBestResult_empty)

lemma attemptLoop_no_population:
  assumes "populationSize params \<le> 0"
    and "best = None \<or> best = Some \<lparr>individualB = None, fitnessB = Infinity\<rparr>"
  shows "attemptLoop a params ns ls best g =
           Inr (if a = 0 then best else Some \<lparr>individualB = None, fitnessB = Infinity\<rparr>, g)"
  using assms(2)
proof (induction a arbitrary: best)
  case 0
  show ?case by simp
next
  case (Suc a)
  from Suc.prems show ?case
    by (auto simp: runAttempt_no_population[OF assms(1)] Suc.IH)
qed


lemma ga_resolves:
  assumes raw: "calculateRequirements depth buildings targets = Some raw"
    and a: "1 \<le> attempts" and ps: "1 \<le> populationSize params"
    and al: "arrayLength (numClusters params)" and rng: "validRng g"
  shows "\<exists>res. runGeneticOptimization depth buildings targets params attempts g = Inr res
           \<and> length (nodesR res) = length (nodes raw)
           \<and> (\<forall>n\<in>set (nodesR res). clusterId n \<noteq> None)"
proof -
  let ?ns = "map toMachineNode (nodes raw)" and ?ls = "map toMachineLink (links raw)"
  let ?Q = "\<lambda>c :: int option. c \<noteq> None"
  have fresh: "freshGenes ?Q params" by (simp add: freshGenes_def)
  have "\<exists>best g'. attemptLoop (nat attempts) params ?ns ?ls None g = Inr (best, g')"
    by (rule attemptLoop_returns[OF fresh al ps rng])
  then obtain best g' where run: "attemptLoop (nat attempts) params ?ns ?ls None g = Inr (best, g')"
    by blast
  from attemptLoop_Some[OF run] a obtain b where b: "best = Some b" by auto
  from attemptLoop_good[OF fresh ps run rng] b have "goodBest ?Q (length ?ns) b" by simp
  then obtain ind where ind: "individualB b = Some ind" and len: "length ind = length (nodes raw)"
    and genes: "\<forall>c\<in>set ind. c \<noteq> None"
    by (auto simp: goodBest_def goodIndividual_def)
  define ns' where "ns' = map (\<lambda>(n, i). n\<lparr>clusterId := gene ind i\<rparr>) (zip ?ns [0..<length ?ns])"
  have asg: "assignClusters (individualB b) ?ns = Inr ns'"
    by (simp add: assignClusters_def ind ns'_def)
  from assignClusters_Some[OF asg[unfolded ind]]
  have l': "length ns' = length (nodes raw)"
    and cl: "\<forall>i<length (nodes raw). clusterId (ns' ! i) = gene ind i" by simp_all
  have defined: "\<forall>n\<in>set ns'. clusterId n \<noteq> None"
  proof
    fix n assume "n \<in> set ns'"
    then obtain i where i: "i < length ns'" "ns' ! i = n" by (auto simp: in_set_conv_nth)
    with cl l' have "clusterId n = gene ind i" by auto
    moreover from i l' len genes have "gene ind i \<noteq> None" by (auto simp: gene_def)
    ultimately show "clusterId n \<noteq> None" by simp
  qed
  have "runGeneticOptimization depth buildings targets params attempts g =
      Inr \<lparr>nodesR = ns', linksR = ?ls, clusters = groupByCluster ns',
           stats = Some \<lparr>totalCrossFlow = sum_list (map valueL (filter
             (\<lambda>l. case (nodeIndexMap ns' (source l), nodeIndexMap ns' (target l)) of
                     (Some sIdx, Some tIdx) \<Rightarrow> gene ind sIdx \<noteq> gene ind tIdx
                   | _ \<Rightarrow> False) ?ls))\<rparr>\<rparr>"
    using raw run b asg ind
    by (simp add: runGeneticOptimization_def Let_def fold_crossFlowStep_Some)
  with l' defined show ?thesis by simp
qed

text \<open>
  Claim C7, amended. Let the demand resolution return. When the attempt loop ends with no
  best candidate, which is when no attempt was made, the call fails with
  \<open>OptimizationFailed\<close>. With at least one attempt that failure is not reachable, and:
  with a population of at least one individual and a cluster count that is an array length,
  for every stream of random numbers in \<open>[0, 1)\<close>, the call returns a complete result, one
  node for every node of the resolution and each with a cluster id; with a population of
  at least one individual and any other cluster count it fails with a \<open>RangeError\<close>; with a
  population of no individual, where \<open>getBestResult\<close> has no individual to return, it fails
  with a \<open>TypeError\<close> if there is a target, and if there is no target it returns the empty
  result without any error.
\<close>

theorem runGeneticOptimization_outcomes:
  assumes "calculateRequirements depth buildings targets = Some raw"
  shows "(attempts \<le> 0 \<longrightarrow>
            runGeneticOptimization depth buildings targets params attempts g
              = Inl OptimizationFailed)
       \<and> (1 \<le> attempts \<longrightarrow>
            runGeneticOptimization depth buildings targets params attempts g
              \<noteq> Inl OptimizationFailed)
       \<and> (1 \<le> attempts \<and> 1 \<le> populationSize params \<and> arrayLength (numClusters params)
            \<and> validRng g \<longrightarrow>
            (\<exists>res. runGeneticOptimization depth buildings targets params attempts g = Inr res
                \<and> length (nodesR res) = length (nodes raw)
                \<and> (\<forall>n\<in>set (nodesR res). clusterId n \<noteq> None)))
       \<and> (1 \<le> attempts \<and> 1 \<le> populationSize params \<and> \<not> arrayLength (numClusters params) \<longrightarrow>
            runGeneticOptimization depth buildings targets params attempts g = Inl RangeError)
       \<and> (1 \<le> attempts \<and> populationSize params \<le> 0 \<and> targets \<noteq> [] \<longrightarrow>
            runGeneticOptimization depth buildings targets params attempts g = Inl TypeError)
       \<and> (1 \<le> attempts \<and> populationSize params \<le> 0 \<and> targets = [] \<longrightarrow>
            runGeneticOptimization depth buildings targets params attempts g
              = Inr \<lparr>nodesR = [], linksR = [], clusters = [],
                     stats = Some \<lparr>totalCrossFlow = 0\<rparr>\<rparr>)"
proof (intro conjI impI)
  assume "attempts \<le> 0"
  then show "runGeneticOptimization depth buildings targets params attempts g
      = Inl OptimizationFailed"
    using assms by (simp add: runGeneticOptimization_def)
next
  assume a: "1 \<le> attempts"
  show "runGeneticOptimization depth buildings targets params attempts g \<noteq> Inl OptimizationFailed"
  proof
    assume f: "runGeneticOptimization depth buildings targets params attempts g
        = Inl OptimizationFailed"
    let ?ns = "map toMachineNode (nodes raw)" and ?ls = "map toMachineLink (links raw)"
    show False
    proof (cases "attemptLoop (nat attempts) params ?ns ?ls None g")
      case (Inl e)
      with f assms have "e = OptimizationFailed"
        by (simp add: runGeneticOptimization_def Let_def)
      with attemptLoop_error[OF Inl] show False by simp
    next
      case (Inr r)
      obtain best g' where r: "r = (best, g')" by (cases r)
      from attemptLoop_Some[OF Inr[unfolded r]] a obtain b where b: "best = Some b" by auto
      have nf: "assignClusters (individualB b) ?ns \<noteq> Inl OptimizationFailed"
        using assignClusters_error by fastforce
      have nf2: "fold (crossFlowStep ns' (individualB b)) ?ls (Inr 0) \<noteq> Inl OptimizationFailed" for ns'
        using fold_crossFlowStep_error[where acc = "Inr 0" and e = OptimizationFailed] by fastforce
      from f assms Inr r b nf nf2 show False
        by (auto simp: runGeneticOptimization_def Let_def split: sum.splits)
    qed
  qed
next
  assume "1 \<le> attempts \<and> 1 \<le> populationSize params \<and> arrayLength (numClusters params)
            \<and> validRng g"
  then show "\<exists>res. runGeneticOptimization depth buildings targets params attempts g = Inr res
                \<and> length (nodesR res) = length (nodes raw)
                \<and> (\<forall>n\<in>set (nodesR res). clusterId n \<noteq> None)"
    by (intro ga_resolves[OF assms]) simp_all
next
  assume "1 \<le> attempts \<and> 1 \<le> populationSize params \<and> \<not> arrayLength (numClusters params)"
  then have "attemptLoop (nat attempts) params (map toMachineNode (nodes raw))
      (map toMachineLink (links raw)) None g = Inl RangeError"
    by (intro attemptLoop_RangeError) simp_all
  with assms show "runGeneticOptimization depth buildings targets params attempts g = Inl RangeError"
    by (simp add: runGeneticOptimization_def Let_def)
next
  assume h: "1 \<le> attempts \<and> populationSize params \<le> 0 \<and> targets \<noteq> []"
  then have ne: "nodes raw \<noteq> []" using calculateRequirements_some_node[OF assms] by simp
  from h have "attemptLoop (nat attempts) params (map toMachineNode (nodes raw))
      (map toMachineLink (links raw)) None g
      = Inr (Some \<lparr>individualB = None, fitnessB = Infinity\<rparr>, g)"
    by (simp add: attemptLoop_no_population)
  with assms ne show "runGeneticOptimization depth buildings targets params attempts g
      = Inl TypeError"
    by (simp add: runGeneticOptimization_def Let_def assignClusters_def)
next
  assume h: "1 \<le> attempts \<and> populationSize params \<le> 0 \<and> targets = []"
  with assms have raw: "raw = \<lparr>nodes = [], links = []\<rparr>"
    by (simp add: calculateRequirements_no_targets)
  from h have "attemptLoop (nat attempts) params [] [] None g
      = Inr (Some \<lparr>individualB = None, fitnessB = Infinity\<rparr>, g)"
    by (simp add: attemptLoop_no_population)
  with assms raw show "runGeneticOptimization depth buildings targets params attempts g
      = Inr \<lparr>nodesR = [], linksR = [], clusters = [], stats = Some \<lparr>totalCrossFlow = 0\<rparr>\<rparr>"
    by (simp add: runGeneticOptimization_def Let_def assignClusters_def groupByCluster_def)
qed

subsection \<open>The search on the example\<close>

lemma validRng_alternating: "validRng alternating"
  by (simp add: validRng_def alternating_def)

lemma smelter_run: "calculateRequirements 2 smelterCatalog tenBars = Some (smelterResultFor 10)"
  by code_simp

theorem evolve_best_fitness_not_worse_witness:
  "map_sum id fst (evolve gaParams smelterNodes smelterLinks threeIndividuals alternating)
     = Inr [[Some 0, Some 1], [Some 0, Some 0], [Some 0, Some 1]]
   \<and> threeIndividuals \<noteq> []
   \<and> (\<exists>fits fits'.
         mapE (calculateFitness gaParams smelterNodes smelterLinks) threeIndividuals = Inr fits
       \<and> mapE (calculateFitness gaParams smelterNodes smelterLinks)
            [[Some 0, Some 1], [Some 0, Some 0], [Some 0, Some 1]] = Inr fits'
       \<and> fits' \<noteq> [] \<and> Min (set fits') \<le> Min (set fits))"
proof -
  have e: "map_sum id fst (evolve gaParams smelterNodes smelterLinks threeIndividuals alternating)
     = Inr [[Some 0, Some 1], [Some 0, Some 0], [Some 0, Some 1]]"
    by code_simp
  then obtain g' where run:
    "evolve gaParams smelterNodes smelterLinks threeIndividuals alternating
       = Inr ([[Some 0, Some 1], [Some 0, Some 0], [Some 0, Some 1]], g')"
    by (cases "evolve gaParams smelterNodes smelterLinks threeIndividuals alternating") auto
  have ne: "threeIndividuals \<noteq> []" by (simp add: threeIndividuals_def)
  from evolve_best_fitness_not_worse[OF run ne] e ne show ?thesis by blast
qed

text \<open>
  The claim as stated fails in two ways. With attempts and population size at least 1, a
  negative cluster count makes \<open>new Array(numClusters)\<close> in \<open>calculateFitness\<close> throw, and
  the call ends in a \<open>RangeError\<close>, not in a result. And with a population of size 0 an
  attempt produces no individual, yet for an empty target list the call returns an empty
  result and no error.
\<close>

theorem unguarded_parameters_counterexample:
  "(1 :: int) \<le> 1 \<and> 1 \<le> populationSize (gaParams\<lparr>numClusters := - 1\<rparr>)
   \<and> validRng alternating
   \<and> runGeneticOptimization 2 smelterCatalog tenBars (gaParams\<lparr>numClusters := - 1\<rparr>) 1 alternating
       = Inl RangeError
   \<and> map_sum id (individualB \<circ> fst) (runAttempt (gaParams\<lparr>populationSize := 0\<rparr>) [] [] alternating)
       = Inr None
   \<and> runGeneticOptimization 2 smelterCatalog [] (gaParams\<lparr>populationSize := 0\<rparr>) 1 alternating
       = Inr \<lparr>nodesR = [], linksR = [], clusters = [], stats = Some \<lparr>totalCrossFlow = 0\<rparr>\<rparr>"
proof -
  have "runGeneticOptimization 2 smelterCatalog tenBars (gaParams\<lparr>numClusters := - 1\<rparr>) 1
      alternating = Inl RangeError"
    by code_simp
  moreover have "map_sum id (individualB \<circ> fst)
      (runAttempt (gaParams\<lparr>populationSize := 0\<rparr>) [] [] alternating) = Inr None"
    by code_simp
  moreover have "runGeneticOptimization 2 smelterCatalog [] (gaParams\<lparr>populationSize := 0\<rparr>) 1
      alternating
      = Inr \<lparr>nodesR = [], linksR = [], clusters = [], stats = Some \<lparr>totalCrossFlow = 0\<rparr>\<rparr>"
    by code_simp
  ultimately show ?thesis by (simp add: validRng_alternating gaParams_def)
qed

lemma no_targets_run: "calculateRequirements 2 smelterCatalog [] = Some \<lparr>nodes = [], links = []\<rparr>"
  by code_simp

theorem runGeneticOptimization_outcomes_witness:
  "calculateRequirements 2 smelterCatalog tenBars = Some (smelterResultFor 10)
   \<and> runGeneticOptimization 2 smelterCatalog tenBars gaParams 0 alternating = Inl OptimizationFailed
   \<and> runGeneticOptimization 2 smelterCatalog tenBars gaParams 1 alternating \<noteq> Inl OptimizationFailed
   \<and> (\<exists>res. runGeneticOptimization 2 smelterCatalog tenBars gaParams 1 alternating = Inr res
         \<and> length (nodesR res) = 2 \<and> (\<forall>n\<in>set (nodesR res). clusterId n \<noteq> None))
   \<and> runGeneticOptimization 2 smelterCatalog tenBars (gaParams\<lparr>numClusters := - 1\<rparr>) 1 alternating
       = Inl RangeError
   \<and> runGeneticOptimization 2 smelterCatalog tenBars (gaParams\<lparr>populationSize := 0\<rparr>) 1 alternating
       = Inl TypeError
   \<and> calculateRequirements 2 smelterCatalog [] = Some \<lparr>nodes = [], links = []\<rparr>
   \<and> runGeneticOptimization 2 smelterCatalog [] (gaParams\<lparr>populationSize := 0\<rparr>) 1 alternating
       = Inr \<lparr>nodesR = [], linksR = [], clusters = [], stats = Some \<lparr>totalCrossFlow = 0\<rparr>\<rparr>"
proof -
  have p: "1 \<le> populationSize gaParams" "arrayLength (numClusters gaParams)"
    "1 \<le> populationSize (gaParams\<lparr>numClusters := - 1\<rparr>)"
    "\<not> arrayLength (numClusters (gaParams\<lparr>numClusters := - 1\<rparr>))"
    "populationSize (gaParams\<lparr>populationSize := 0\<rparr>) \<le> 0"
    "tenBars \<noteq> []" "length (nodes (smelterResultFor 10)) = 2"
    by (simp_all add: gaParams_def arrayLength_def tenBars_def smelterResultFor_def)
  from runGeneticOptimization_outcomes[OF smelter_run, of 0 gaParams alternating]
    runGeneticOptimization_outcomes[OF smelter_run, of 1 gaParams alternating]
    runGeneticOptimization_outcomes[OF smelter_run, of 1 "gaParams\<lparr>numClusters := - 1\<rparr>" alternating]
    runGeneticOptimization_outcomes[OF smelter_run, of 1 "gaParams\<lparr>populationSize := 0\<rparr>" alternating]
    runGeneticOptimization_outcomes[OF no_targets_run, of 1 "gaParams\<lparr>populationSize := 0\<rparr>" alternating]
    p validRng_alternating smelter_run no_targets_run
  show ?thesis by simp
qed

section \<open>Properties of the spatial clustering\<close>

subsection \<open>The reported cross flow\<close>

lemma nodeClusterMap_member:
  assumes "distinct (map idM ns)" and "n \<in> set ns"
  shows "nodeClusterMap ns (idM n) = clusterId n"
proof -
  let ?es = "map (\<lambda>n. (idM n, clusterId n)) ns"
  have d: "distinct (map fst ?es)" using assms(1) by (simp add: comp_def)
  have "(idM n, clusterId n) \<in> set ?es" using assms(2) by auto
  with d have "map_of ?es (idM n) = Some (clusterId n)" by (rule map_of_is_SomeI)
  then show ?thesis
    by (simp add: nodeClusterMap_def getOpt_def mapOfEntries_def map_of_rev_distinct[OF d])
qed

lemma nodeClusterMap_absent:
  assumes "k \<notin> idM ` set ns"
  shows "nodeClusterMap ns k = None"
proof -
  have "k \<notin> fst ` set (rev (map (\<lambda>n. (idM n, clusterId n)) ns))" using assms by force
  then have "map_of (rev (map (\<lambda>n. (idM n, clusterId n)) ns)) k = None"
    by (simp add: map_of_eq_None_iff)
  then show ?thesis by (simp add: nodeClusterMap_def getOpt_def mapOfEntries_def)
qed

lemma crossFlowOf_cond:
  "crossFlowOf m l flow =
     (if (case (m (source l), m (target l)) of (Some sC, Some tC) \<Rightarrow> sC \<noteq> tC | _ \<Rightarrow> False)
      then flow + valueL l else flow)"
  by (simp add: crossFlowOf_def split: option.splits)

lemma crossing_by_map:
  assumes d: "distinct (map idM ns)"
    and u: "(\<forall>n\<in>set ns. clusterId n \<noteq> None) \<or> (\<forall>n\<in>set ns. clusterId n = None)"
  shows "crossing ns l \<longleftrightarrow>
     (case (nodeClusterMap ns (source l), nodeClusterMap ns (target l)) of
        (Some sC, Some tC) \<Rightarrow> sC \<noteq> tC | _ \<Rightarrow> False)"
proof
  assume "crossing ns l"
  then obtain s t where st: "s \<in> set ns" "t \<in> set ns" "idM s = source l" "idM t = target l"
    "clusterId s \<noteq> clusterId t" by (auto simp: crossing_def)
  from u st(1,2,5) have "clusterId s \<noteq> None" "clusterId t \<noteq> None" by auto
  with st(5) obtain a b where "clusterId s = Some a" "clusterId t = Some b" "a \<noteq> b" by auto
  with st nodeClusterMap_member[OF d st(1)] nodeClusterMap_member[OF d st(2)]
  show "case (nodeClusterMap ns (source l), nodeClusterMap ns (target l)) of
        (Some sC, Some tC) \<Rightarrow> sC \<noteq> tC | _ \<Rightarrow> False" by simp
next
  assume a: "case (nodeClusterMap ns (source l), nodeClusterMap ns (target l)) of
        (Some sC, Some tC) \<Rightarrow> sC \<noteq> tC | _ \<Rightarrow> False"
  then obtain sC tC where m: "nodeClusterMap ns (source l) = Some sC"
    "nodeClusterMap ns (target l) = Some tC" "sC \<noteq> tC" by (auto split: option.splits)
  have "source l \<in> idM ` set ns"
    using m(1) nodeClusterMap_absent[of "source l" ns] by (cases "source l \<in> idM ` set ns") simp_all
  then obtain s where s: "s \<in> set ns" "idM s = source l" by auto
  have "target l \<in> idM ` set ns"
    using m(2) nodeClusterMap_absent[of "target l" ns] by (cases "target l \<in> idM ` set ns") simp_all
  then obtain t where t: "t \<in> set ns" "idM t = target l" by auto
  from nodeClusterMap_member[OF d s(1)] nodeClusterMap_member[OF d t(1)] m s t
  have "clusterId s = Some sC" "clusterId t = Some tC" by simp_all
  with m(3) have "clusterId s \<noteq> clusterId t" by simp
  with s t show "crossing ns l" by (auto simp: crossing_def)
qed

lemma assemble_totalCrossFlow:
  assumes d: "distinct (map idM ns)"
    and u: "(\<forall>n\<in>set ns. clusterId n \<noteq> None) \<or> (\<forall>n\<in>set ns. clusterId n = None)"
  shows "stats (assemble ns ls) = Some \<lparr>totalCrossFlow = statedCrossFlow ns ls\<rparr>"
proof -
  let ?P = "\<lambda>l. case (nodeClusterMap ns (source l), nodeClusterMap ns (target l)) of
                 (Some sC, Some tC) \<Rightarrow> sC \<noteq> tC | _ \<Rightarrow> False"
  have "fold (crossFlowOf (nodeClusterMap ns)) ls 0 = 0 + sum_list (map valueL (filter ?P ls))"
    unfolding crossFlowOf_cond[abs_def] by (rule fold_cond_sum)
  moreover have "filter (crossing ns) ls = filter ?P ls"
    by (intro filter_cong refl crossing_by_map[OF d u])
  ultimately show ?thesis by (simp add: assemble_def statedCrossFlow_def)
qed

subsection \<open>The result of optimizeLayout\<close>

lemma idM_placeNodes: "map idM (placeNodes pos ns) = map idM ns"
  by (auto simp: placeNodes_def intro: nth_equalityI)

lemma clusterId_placeNodes: "n \<in> set (placeNodes pos ns) \<Longrightarrow> \<exists>m\<in>set ns. clusterId n = clusterId m"
  by (auto simp: placeNodes_def dest: set_zip_leftD)

lemma category_placeNodes: "map category (placeNodes pos ns) = map category ns"
  by (auto simp: placeNodes_def intro: nth_equalityI)

lemma idM_applyBest [simp]: "idM (applyBest b n) = idM n"
  by (simp add: applyBest_def)

lemma category_applyBest [simp]: "category (applyBest b n) = category n"
  by (simp add: applyBest_def)

lemma optimizeLayout_unfold:
  assumes "calculateRequirements depth buildings targets = Some raw"
    and "ns = placeNodes (lay (map toMachineNode (nodes raw))
                 (map toSimLink (map toMachineLink (links raw))
                  @ constraintLinks (map toMachineNode (nodes raw)) cons))
               (map toMachineNode (nodes raw))"
    and "items = filter (\<lambda>n. category n \<noteq> Some ''sink'') ns"
    and "ls = map toMachineLink (links raw)"
  shows "optimizeLayout depth lay shuf buildings targets numK splits cons attempts =
     (if length items > 0 then
        (case passLoop (nat attempts) 0 shuf (min numK (int (length items))) items ls splits
                (Map.empty, Infinity) of
           Inl e \<Rightarrow> Inl e
         | Inr (best, score) \<Rightarrow> Inr (assemble (map (applyBest best) ns) ls))
      else Inr (assemble ns ls))"
  unfolding optimizeLayout_def Let_def assms(1) option.case assms(2-4) ..

lemma optimizeLayout_Inr:
  assumes "optimizeLayout depth lay shuf buildings targets numK splits cons attempts = Inr res"
  shows "\<exists>raw ns.
      calculateRequirements depth buildings targets = Some raw
    \<and> map idM ns = map name (nodes raw)
    \<and> (\<forall>n\<in>set ns. clusterId n = None)
    \<and> ((filter (\<lambda>n. category n \<noteq> Some ''sink'') ns = []
          \<and> res = assemble ns (map toMachineLink (links raw)))
       \<or> (filter (\<lambda>n. category n \<noteq> Some ''sink'') ns \<noteq> []
          \<and> (\<exists>best score.
                passLoop (nat attempts) 0 shuf
                  (min numK (int (length (filter (\<lambda>n. category n \<noteq> Some ''sink'') ns))))
                  (filter (\<lambda>n. category n \<noteq> Some ''sink'') ns)
                  (map toMachineLink (links raw)) splits (Map.empty, Infinity) = Inr (best, score)
              \<and> res = assemble (map (applyBest best) ns) (map toMachineLink (links raw)))))"
proof -
  from assms obtain raw :: SankeyData where
    raw: "calculateRequirements depth buildings targets = Some raw"
    by (cases "calculateRequirements depth buildings targets") (simp_all add: optimizeLayout_def)
  define ns where "ns = placeNodes (lay (map toMachineNode (nodes raw))
                 (map toSimLink (map toMachineLink (links raw))
                  @ constraintLinks (map toMachineNode (nodes raw)) cons))
               (map toMachineNode (nodes raw))"
  define items where "items = filter (\<lambda>n. category n \<noteq> Some ''sink'') ns"
  define ls where "ls = map toMachineLink (links raw)"
  note unf = optimizeLayout_unfold[where lay = lay and cons = cons and shuf = shuf and numK = numK
      and splits = splits and attempts = attempts, OF raw ns_def items_def ls_def]
  have 1: "map idM ns = map name (nodes raw)" by (simp add: ns_def idM_placeNodes comp_def)
  have 2: "\<forall>n\<in>set ns. clusterId n = None"
  proof
    fix n assume "n \<in> set ns"
    from clusterId_placeNodes[OF this[unfolded ns_def]] show "clusterId n = None" by auto
  qed
  have "(items = [] \<and> res = assemble ns ls)
     \<or> (items \<noteq> [] \<and> (\<exists>best score.
           passLoop (nat attempts) 0 shuf (min numK (int (length items))) items ls splits
             (Map.empty, Infinity) = Inr (best, score)
           \<and> res = assemble (map (applyBest best) ns) ls))"
  proof (cases "items = []")
    case True
    with assms unf show ?thesis by simp
  next
    case False
    with assms unf show ?thesis by (auto split: sum.splits)
  qed
  with raw 1 2 show ?thesis unfolding items_def ls_def by blast
qed

lemma kmeans_totalCrossFlow:
  assumes "optimizeLayout depth lay shuf buildings targets numK splits cons attempts = Inr res"
  shows "stats res = Some \<lparr>totalCrossFlow = statedCrossFlow (nodesR res) (linksR res)\<rparr>"
proof -
  from optimizeLayout_Inr[OF assms] obtain raw :: SankeyData and ns where
    raw: "calculateRequirements depth buildings targets = Some raw"
    and ids: "map idM ns = map name (nodes raw)"
    and none: "\<forall>n\<in>set ns. clusterId n = None"
    and res: "res = assemble ns (map toMachineLink (links raw))
              \<or> (\<exists>best. res = assemble (map (applyBest best) ns) (map toMachineLink (links raw)))"
    by blast
  from calculateRequirements_distinct_names[OF raw] ids have d: "distinct (map idM ns)" by simp
  from res show ?thesis
  proof
    assume r: "res = assemble ns (map toMachineLink (links raw))"
    have "stats res = Some \<lparr>totalCrossFlow = statedCrossFlow ns (map toMachineLink (links raw))\<rparr>"
      unfolding r by (rule assemble_totalCrossFlow[OF d]) (use none in simp)
    then show ?thesis by (simp add: r assemble_def)
  next
    assume "\<exists>best. res = assemble (map (applyBest best) ns) (map toMachineLink (links raw))"
    then obtain best where
      r: "res = assemble (map (applyBest best) ns) (map toMachineLink (links raw))" ..
    have d': "distinct (map idM (map (applyBest best) ns))" using d by (simp add: comp_def)
    have "stats res = Some \<lparr>totalCrossFlow =
        statedCrossFlow (map (applyBest best) ns) (map toMachineLink (links raw))\<rparr>"
      unfolding r by (rule assemble_totalCrossFlow[OF d']) (simp add: applyBest_def)
    then show ?thesis by (simp add: r assemble_def)
  qed
qed

subsection \<open>One round\<close>

lemma foldE_invariant:
  "foldE f xs s = Inr s' \<Longrightarrow> I s
   \<Longrightarrow> (\<And>x s s'. x \<in> set xs \<Longrightarrow> I s \<Longrightarrow> f x s = Inr s' \<Longrightarrow> I s') \<Longrightarrow> I s'"
proof (induction xs arbitrary: s)
  case Nil
  then show ?case by simp
next
  case (Cons x xs)
  from Cons.prems(1) obtain s1 where s1: "f x s = Inr s1" "foldE f xs s1 = Inr s'"
    by (auto split: sum.splits)
  have "I s1" using Cons.prems(2) s1(1) by (rule Cons.prems(3)[of x s s1, simplified])
  show ?case by (rule Cons.IH[OF s1(2) \<open>I s1\<close>]) (rule Cons.prems(3), auto)
qed

lemma assignNode_Inr:
  assumes "assignNode centroids ca node rs = Inr rs'"
  shows "\<exists>px py. xM node = Some px \<and> yM node = Some py
     \<and> 0 \<le> closestTo px py centroids
     \<and> nat (closestTo px py centroids) < length (clusterSums rs)
     \<and> newClusters rs' = (newClusters rs)(idM node \<mapsto> closestTo px py centroids)
     \<and> clusterSums rs' = (clusterSums rs)[nat (closestTo px py centroids) :=
           addPoint px py (clusterSums rs ! nat (closestTo px py centroids))]"
  using assms
  by (auto simp: assignNode_def Let_def split: option.splits if_splits)

lemma assignNode_range:
  assumes "assignNode centroids ca node rs = Inr rs'"
    and "length (clusterSums rs) = nat k \<and> inRange k (newClusters rs)"
  shows "length (clusterSums rs') = nat k \<and> inRange k (newClusters rs')"
proof -
  from assignNode_Inr[OF assms(1)] obtain px py where
    c: "0 \<le> closestTo px py centroids" "nat (closestTo px py centroids) < length (clusterSums rs)"
    and n: "newClusters rs' = (newClusters rs)(idM node \<mapsto> closestTo px py centroids)"
    and s: "clusterSums rs' = (clusterSums rs)[nat (closestTo px py centroids) :=
           addPoint px py (clusterSums rs ! nat (closestTo px py centroids))]"
    by blast
  from c assms(2) have "closestTo px py centroids < k" by simp
  with c(1) assms(2) show ?thesis by (auto simp: n s inRange_def)
qed

lemma kmeansRound_range:
  assumes "kmeansRound k items centroids ca = Inr (centroids', ca', changed)"
  shows "inRange k ca' \<and> length centroids' = nat k"
proof -
  from assms obtain rs where
    f: "foldE (assignNode centroids ca) items
          \<lparr>newClusters = Map.empty,
           clusterSums = replicate (nat k) \<lparr>sumX = 0, sumY = 0, count = 0\<rparr>,
           hasChanged = False\<rparr> = Inr rs"
    and r: "centroids' = map newCentroid (clusterSums rs)" "ca' = newClusters rs"
    by (auto simp: kmeansRound_def split: if_splits sum.splits)
  have "length (clusterSums rs) = nat k \<and> inRange k (newClusters rs)"
  proof (rule foldE_invariant[OF f, where I = "\<lambda>s. length (clusterSums s) = nat k \<and> inRange k (newClusters s)"])
    show "length (clusterSums \<lparr>newClusters = Map.empty,
           clusterSums = replicate (nat k) \<lparr>sumX = 0, sumY = 0, count = 0\<rparr>,
           hasChanged = False\<rparr>) = nat k
      \<and> inRange k (newClusters \<lparr>newClusters = Map.empty,
           clusterSums = replicate (nat k) \<lparr>sumX = 0, sumY = 0, count = 0\<rparr>,
           hasChanged = False\<rparr>)"
      by (simp add: inRange_def)
  next
    fix x s s'
    assume "length (clusterSums s) = nat k \<and> inRange k (newClusters s)"
      "assignNode centroids ca x s = Inr s'"
    then show "length (clusterSums s') = nat k \<and> inRange k (newClusters s')"
      using assignNode_range by blast
  qed
  then show ?thesis by (simp add: r)
qed

lemma kmeansLoop_range:
  "kmeansLoop i k items centroids ca = Inr ca' \<Longrightarrow> inRange k ca \<Longrightarrow> inRange k ca'"
proof (induction i arbitrary: centroids ca)
  case 0
  then show ?case by simp
next
  case (Suc i)
  from Suc.prems(1) obtain cs1 ca1 ch where
    r: "kmeansRound k items centroids ca = Inr (cs1, ca1, ch)"
    and l: "(if ch then kmeansLoop i k items cs1 ca1 else Inr ca1) = Inr ca'"
    by (auto split: sum.splits)
  from kmeansRound_range[OF r] have "inRange k ca1" by simp
  with l Suc.IH[of cs1 ca1] show ?case by (auto split: if_splits)
qed

lemma passLoop_range:
  "passLoop i pass shuf k items ls splits best = Inr (b, s) \<Longrightarrow> inRange k (fst best)
   \<Longrightarrow> inRange k b"
proof (induction i arbitrary: pass best)
  case 0
  then show ?case by auto
next
  case (Suc i)
  obtain bm bs where best: "best = (bm, bs)" by (cases best)
  from Suc.prems(1)[unfolded best] obtain ca where
    l: "kmeansLoop 50 k items (map (\<lambda>n. (xM n, yM n)) (take (nat k) (shuf pass items))) Map.empty
          = Inr ca"
    and p: "passLoop i (Suc pass) shuf k items ls splits
              (if lessJ (Num (attemptScore ls splits ca)) bs
               then (ca, Num (attemptScore ls splits ca)) else (bm, bs)) = Inr (b, s)"
    by (auto simp: Let_def split: sum.splits)
  from kmeansLoop_range[OF l] have "inRange k ca" by (simp add: inRange_def)
  with Suc.prems(2) best show ?case by (intro Suc.IH[OF p]) auto
qed

lemma kmeans_clusterIds_in_range:
  assumes run: "optimizeLayout depth lay shuf buildings targets numK splits cons attempts = Inr res"
    and k: "1 \<le> numK"
    and items: "filter (\<lambda>n. category n \<noteq> Some ''sink'') (nodesR res) \<noteq> []"
  shows "\<forall>n\<in>set (nodesR res). \<exists>c. clusterId n = Some c \<and> 0 \<le> c
           \<and> c < min numK (int (length (filter (\<lambda>n. category n \<noteq> Some ''sink'') (nodesR res))))"
proof -
  from optimizeLayout_Inr[OF run] obtain raw :: SankeyData and ns where
    alt: "(filter (\<lambda>n. category n \<noteq> Some ''sink'') ns = []
          \<and> res = assemble ns (map toMachineLink (links raw)))
       \<or> (filter (\<lambda>n. category n \<noteq> Some ''sink'') ns \<noteq> []
          \<and> (\<exists>best score.
                passLoop (nat attempts) 0 shuf
                  (min numK (int (length (filter (\<lambda>n. category n \<noteq> Some ''sink'') ns))))
                  (filter (\<lambda>n. category n \<noteq> Some ''sink'') ns)
                  (map toMachineLink (links raw)) splits (Map.empty, Infinity) = Inr (best, score)
              \<and> res = assemble (map (applyBest best) ns) (map toMachineLink (links raw))))"
    by blast
  let ?items = "filter (\<lambda>n. category n \<noteq> Some ''sink'') ns"
  let ?k = "min numK (int (length ?items))"
  from alt items have ne: "?items \<noteq> []" by (auto simp: assemble_def)
  with alt obtain best score where
    p: "passLoop (nat attempts) 0 shuf ?k ?items (map toMachineLink (links raw)) splits
          (Map.empty, Infinity) = Inr (best, score)"
    and res: "res = assemble (map (applyBest best) ns) (map toMachineLink (links raw))"
    by blast
  have r: "inRange ?k best" by (rule passLoop_range[OF p]) (simp add: inRange_def)
  have same: "filter (\<lambda>n. category n \<noteq> Some ''sink'') (map (applyBest best) ns)
      = map (applyBest best) ?items"
    by (simp add: filter_map comp_def)
  from ne k have kpos: "0 < ?k" by (cases ?items) auto
  show ?thesis
  proof
    fix n assume "n \<in> set (nodesR res)"
    then obtain m where m: "m \<in> set ns" "n = applyBest best m" by (auto simp: res assemble_def)
    show "\<exists>c. clusterId n = Some c \<and> 0 \<le> c
           \<and> c < min numK (int (length (filter (\<lambda>n. category n \<noteq> Some ''sink'') (nodesR res))))"
    proof (cases "best (idM m)")
      case None
      with m kpos show ?thesis by (simp add: applyBest_def res assemble_def same)
    next
      case (Some c)
      with r have "0 \<le> c \<and> c < ?k" by (simp add: inRange_def)
      with m Some show ?thesis by (simp add: applyBest_def res assemble_def same)
    qed
  qed
qed

subsection \<open>The new centroids\<close>

lemma membersOf_Cons:
  "membersOf cs (n # items) j =
     (if (case (xM n, yM n) of (Some px, Some py) \<Rightarrow> closestTo px py cs = int j | _ \<Rightarrow> False)
      then n # membersOf cs items j else membersOf cs items j)"
  by (simp add: membersOf_def)

lemma addMembers_Nil [simp]: "addMembers [] c = c"
  by (simp add: addMembers_def)

lemma addMembers_addPoint:
  "xM n = Some px \<Longrightarrow> yM n = Some py \<Longrightarrow>
     addMembers ms (addPoint px py c) = addMembers (n # ms) c"
  by (simp add: addMembers_def addPoint_def coordX_def coordY_def)

lemma foldE_assign_sums:
  "foldE (assignNode cs ca) items rs0 = Inr rs \<Longrightarrow>
     length (clusterSums rs) = length (clusterSums rs0)
     \<and> (\<forall>n\<in>set items. hasPosition n)
     \<and> (\<forall>j<length (clusterSums rs0).
           clusterSums rs ! j = addMembers (membersOf cs items j) (clusterSums rs0 ! j))"
proof (induction items arbitrary: rs0)
  case Nil
  then show ?case by (simp add: membersOf_def)
next
  case (Cons n items)
  from Cons.prems obtain rs1 where a: "assignNode cs ca n rs0 = Inr rs1"
    and f: "foldE (assignNode cs ca) items rs1 = Inr rs"
    by (auto split: sum.splits)
  from assignNode_Inr[OF a] obtain px py where
    xy: "xM n = Some px" "yM n = Some py"
    and c: "0 \<le> closestTo px py cs" "nat (closestTo px py cs) < length (clusterSums rs0)"
    and s: "clusterSums rs1 = (clusterSums rs0)[nat (closestTo px py cs) :=
           addPoint px py (clusterSums rs0 ! nat (closestTo px py cs))]"
    by blast
  from Cons.IH[OF f] have
    len: "length (clusterSums rs) = length (clusterSums rs1)"
    and pos: "\<forall>n\<in>set items. hasPosition n"
    and sums: "\<forall>j<length (clusterSums rs1).
           clusterSums rs ! j = addMembers (membersOf cs items j) (clusterSums rs1 ! j)"
    by auto
  have "clusterSums rs ! j = addMembers (membersOf cs (n # items) j) (clusterSums rs0 ! j)"
    if j: "j < length (clusterSums rs0)" for j
  proof (cases "closestTo px py cs = int j")
    case True
    then have "nat (closestTo px py cs) = j" by simp
    with sums j s have "clusterSums rs ! j
        = addMembers (membersOf cs items j) (addPoint px py (clusterSums rs0 ! j))" by simp
    with True xy show ?thesis by (simp add: membersOf_Cons addMembers_addPoint)
  next
    case False
    with c(1) have "nat (closestTo px py cs) \<noteq> j" by auto
    with sums j s have "clusterSums rs ! j
        = addMembers (membersOf cs items j) (clusterSums rs0 ! j)" by simp
    with False xy show ?thesis by (simp add: membersOf_Cons)
  qed
  with len pos xy s show ?case by (simp add: hasPosition_def)
qed

lemma newCentroid_addMembers:
  "newCentroid (addMembers ms \<lparr>sumX = 0, sumY = 0, count = 0\<rparr>)
     = (if ms = [] then (Some 0, Some 0) else meanPosition ms)"
  by (simp add: newCentroid_def addMembers_def meanPosition_def)

text \<open>
  Claim C6, amended. In a round of k-means, after the nodes are assigned to their nearest
  centroids, a centroid whose cluster received no member is reset to the origin, whatever
  its value was before, and every centroid with at least one member becomes the mean
  position of the nodes assigned to it.
\<close>

theorem centroid_update:
  assumes "kmeansRound k items centroids clusterAssignment = Inr (centroids', newAssignment, changed)"
  shows "length centroids' = nat k
       \<and> (\<forall>n\<in>set items. hasPosition n)
       \<and> (\<forall>j<nat k. centroids' ! j =
             (if membersOf centroids items j = [] then (Some 0, Some 0)
              else meanPosition (membersOf centroids items j)))"
proof -
  let ?rs0 = "\<lparr>newClusters = Map.empty,
           clusterSums = replicate (nat k) \<lparr>sumX = 0, sumY = 0, count = 0\<rparr>,
           hasChanged = False\<rparr>"
  from assms obtain rs where
    f: "foldE (assignNode centroids clusterAssignment) items ?rs0 = Inr rs"
    and r: "centroids' = map newCentroid (clusterSums rs)"
    by (auto simp: kmeansRound_def split: if_splits sum.splits)
  from foldE_assign_sums[OF f] have
    len: "length (clusterSums rs) = nat k"
    and pos: "\<forall>n\<in>set items. hasPosition n"
    and sums: "\<forall>j<nat k. clusterSums rs ! j
          = addMembers (membersOf centroids items j) \<lparr>sumX = 0, sumY = 0, count = 0\<rparr>"
    by auto
  from len sums have "\<forall>j<nat k. centroids' ! j =
             (if membersOf centroids items j = [] then (Some 0, Some 0)
              else meanPosition (membersOf centroids items j))"
    by (simp add: r newCentroid_addMembers)
  with len pos show ?thesis by (simp add: r)
qed

text \<open>
  The claim as stated, with the empty cluster keeping its centroid: five items, three
  clusters, seeds at the items \<open>c\<close>, \<open>a\<close>, \<open>b\<close>. The first round leaves the second centroid
  at \<open>(1/2, 0)\<close>; in the second round no item is nearest to it, and it moves to the origin.
\<close>

theorem empty_cluster_counterexample:
  "(case kmeansRound 3 fiveItems seedCentroids Map.empty of
      Inl e \<Rightarrow> False
    | Inr (c1, a1, changed1) \<Rightarrow>
        (case kmeansRound 3 fiveItems c1 a1 of
           Inl e \<Rightarrow> False
         | Inr (c2, a2, changed2) \<Rightarrow>
             c1 ! 1 = (Some (1 / 2), Some 0) \<and> membersOf c1 fiveItems 1 = []
             \<and> c2 ! 1 = (Some 0, Some 0) \<and> c2 ! 1 \<noteq> c1 ! 1))"
  by code_simp

theorem centroid_update_witness:
  "\<exists>c1 a1 changed1.
     kmeansRound 3 fiveItems seedCentroids Map.empty = Inr (c1, a1, changed1)
     \<and> length c1 = 3
     \<and> c1 ! 1 = meanPosition (membersOf seedCentroids fiveItems 1)
     \<and> membersOf seedCentroids fiveItems 1 = [fiveItems ! 0, fiveItems ! 3]
     \<and> c1 ! 1 = (Some (1 / 2), Some 0)"
proof -
  have "map_sum id fst (kmeansRound 3 fiveItems seedCentroids Map.empty)
      = Inr [(Some 1, Some 1), (Some (1 / 2), Some 0), (Some (- 2), Some 0)]"
    by code_simp
  then obtain c1 a1 changed1 where
    r: "kmeansRound 3 fiveItems seedCentroids Map.empty = Inr (c1, a1, changed1)"
    and c1: "c1 = [(Some 1, Some 1), (Some (1 / 2), Some 0), (Some (- 2), Some 0)]"
    by (cases "kmeansRound 3 fiveItems seedCentroids Map.empty") auto
  have m: "membersOf seedCentroids fiveItems 1 = [fiveItems ! 0, fiveItems ! 3]"
    by code_simp
  from centroid_update[OF r] have "c1 ! 1 =
      (if membersOf seedCentroids fiveItems 1 = [] then (Some 0, Some 0)
       else meanPosition (membersOf seedCentroids fiveItems 1))" by simp
  with m have "c1 ! 1 = meanPosition (membersOf seedCentroids fiveItems 1)" by simp
  with r c1 m show ?thesis by simp
qed

section \<open>The two optimizers together\<close>

text \<open>
  Claim C2. In every result of \<open>optimizeLayout\<close> and of \<open>runGeneticOptimization\<close> the
  reported \<open>totalCrossFlow\<close> is the sum of the values of exactly those returned links whose
  source node and target node carry different cluster ids in the returned node list: a
  function of the returned links and nodes, not of any score of the search.
\<close>

theorem reported_cross_flow:
  "(optimizeLayout depth lay shuf buildings targets numK splits cons attempts = Inr res
      \<longrightarrow> stats res = Some \<lparr>totalCrossFlow = statedCrossFlow (nodesR res) (linksR res)\<rparr>)
   \<and> (runGeneticOptimization depth' buildings' targets' params attempts' g = Inr res'
      \<longrightarrow> stats res' = Some \<lparr>totalCrossFlow = statedCrossFlow (nodesR res') (linksR res')\<rparr>)"
  using kmeans_totalCrossFlow ga_totalCrossFlow by blast

text \<open>
  Claim C3. With a requested cluster count of at least 1: every node of a result of
  \<open>optimizeLayout\<close> that has an item (a node that is not a sink) carries a cluster id from
  0 up to, but not including, the clamped count \<open>min numClusters (number of items)\<close>, which
  is at most the requested count; and with a population of at least one individual every
  node of a result of \<open>runGeneticOptimization\<close> carries a cluster id from 0 up to, but not
  including, the requested count. Random numbers are taken from \<open>[0, 1)\<close>.
\<close>

theorem cluster_ids_below_k:
  "(optimizeLayout depth lay shuf buildings targets numK splits cons attempts = Inr res
      \<and> 1 \<le> numK \<and> filter (\<lambda>n. category n \<noteq> Some ''sink'') (nodesR res) \<noteq> []
      \<longrightarrow> (\<forall>n\<in>set (nodesR res). \<exists>c. clusterId n = Some c \<and> 0 \<le> c
             \<and> c < min numK (int (length (filter (\<lambda>n. category n \<noteq> Some ''sink'') (nodesR res))))
             \<and> c < numK))
   \<and> (runGeneticOptimization depth' buildings' targets' params attempts' g = Inr res'
      \<and> 1 \<le> numClusters params \<and> 1 \<le> populationSize params \<and> validRng g
      \<longrightarrow> (\<forall>n\<in>set (nodesR res'). \<exists>c. clusterId n = Some c \<and> 0 \<le> c \<and> c < numClusters params))"
proof (intro conjI impI)
  assume a: "optimizeLayout depth lay shuf buildings targets numK splits cons attempts = Inr res
      \<and> 1 \<le> numK \<and> filter (\<lambda>n. category n \<noteq> Some ''sink'') (nodesR res) \<noteq> []"
  then have "\<forall>n\<in>set (nodesR res). \<exists>c. clusterId n = Some c \<and> 0 \<le> c
           \<and> c < min numK (int (length (filter (\<lambda>n. category n \<noteq> Some ''sink'') (nodesR res))))"
    by (intro kmeans_clusterIds_in_range) auto
  then show "\<forall>n\<in>set (nodesR res). \<exists>c. clusterId n = Some c \<and> 0 \<le> c
             \<and> c < min numK (int (length (filter (\<lambda>n. category n \<noteq> Some ''sink'') (nodesR res))))
             \<and> c < numK"
    by fastforce
next
  assume "runGeneticOptimization depth' buildings' targets' params attempts' g = Inr res'
      \<and> 1 \<le> numClusters params \<and> 1 \<le> populationSize params \<and> validRng g"
  then show "\<forall>n\<in>set (nodesR res'). \<exists>c. clusterId n = Some c \<and> 0 \<le> c \<and> c < numClusters params"
    by (intro ga_clusterIds_in_range) auto
qed

lemma kmeans_example:
  "map_sum id (\<lambda>r. (map clusterId (nodesR r), map category (nodesR r), stats r))
     (optimizeLayout 2 rowLayout keepOrder smelterCatalog tenBars 2 [] [] 3)
   = Inr ([Some 0, Some 1], [Some ''smelter'', Some ''raw''], Some \<lparr>totalCrossFlow = 10\<rparr>)"
  by code_simp

lemma ga_example:
  "map_sum id (\<lambda>r. (map clusterId (nodesR r), stats r))
     (runGeneticOptimization 2 smelterCatalog tenBars gaParams 1 alternating)
   = Inr ([Some 1, Some 0], Some \<lparr>totalCrossFlow = 10\<rparr>)"
  by code_simp

theorem reported_cross_flow_witness:
  "(\<exists>res. optimizeLayout 2 rowLayout keepOrder smelterCatalog tenBars 2 [] [] 3 = Inr res
        \<and> stats res = Some \<lparr>totalCrossFlow = statedCrossFlow (nodesR res) (linksR res)\<rparr>
        \<and> stats res = Some \<lparr>totalCrossFlow = 10\<rparr>)
   \<and> (\<exists>res'. runGeneticOptimization 2 smelterCatalog tenBars gaParams 1 alternating = Inr res'
        \<and> stats res' = Some \<lparr>totalCrossFlow = statedCrossFlow (nodesR res') (linksR res')\<rparr>
        \<and> stats res' = Some \<lparr>totalCrossFlow = 10\<rparr>)"
proof -
  from kmeans_example obtain res where
    1: "optimizeLayout 2 rowLayout keepOrder smelterCatalog tenBars 2 [] [] 3 = Inr res"
    and s1: "stats res = Some \<lparr>totalCrossFlow = 10\<rparr>"
    by (cases "optimizeLayout 2 rowLayout keepOrder smelterCatalog tenBars 2 [] [] 3") auto
  from ga_example obtain res' where
    2: "runGeneticOptimization 2 smelterCatalog tenBars gaParams 1 alternating = Inr res'"
    and s2: "stats res' = Some \<lparr>totalCrossFlow = 10\<rparr>"
    by (cases "runGeneticOptimization 2 smelterCatalog tenBars gaParams 1 alternating") auto
  from reported_cross_flow[of 2 rowLayout keepOrder smelterCatalog tenBars 2 "[]" "[]" 3 res
      2 smelterCatalog tenBars gaParams 1 alternating res'] 1 2 s1 s2
  show ?thesis by simp
qed

theorem cluster_ids_below_k_witness:
  "(\<exists>res. optimizeLayout 2 rowLayout keepOrder smelterCatalog tenBars 2 [] [] 3 = Inr res
        \<and> (1 :: int) \<le> 2 \<and> filter (\<lambda>n. category n \<noteq> Some ''sink'') (nodesR res) \<noteq> []
        \<and> (\<forall>n\<in>set (nodesR res). \<exists>c. clusterId n = Some c \<and> 0 \<le> c
             \<and> c < min 2 (int (length (filter (\<lambda>n. category n \<noteq> Some ''sink'') (nodesR res))))
             \<and> c < 2)
        \<and> map clusterId (nodesR res) = [Some 0, Some 1])
   \<and> (\<exists>res'. runGeneticOptimization 2 smelterCatalog tenBars gaParams 1 alternating = Inr res'
        \<and> 1 \<le> numClusters gaParams \<and> 1 \<le> populationSize gaParams \<and> validRng alternating
        \<and> (\<forall>n\<in>set (nodesR res'). \<exists>c. clusterId n = Some c \<and> 0 \<le> c \<and> c < numClusters gaParams)
        \<and> map clusterId (nodesR res') = [Some 1, Some 0])"
proof -
  from kmeans_example obtain res where
    1: "optimizeLayout 2 rowLayout keepOrder smelterCatalog tenBars 2 [] [] 3 = Inr res"
    and c1: "map clusterId (nodesR res) = [Some 0, Some 1]"
    and cat: "map category (nodesR res) = [Some ''smelter'', Some ''raw'']"
    by (cases "optimizeLayout 2 rowLayout keepOrder smelterCatalog tenBars 2 [] [] 3") auto
  from cat have items: "filter (\<lambda>n. category n \<noteq> Some ''sink'') (nodesR res) \<noteq> []"
    by (cases "nodesR res") auto
  from ga_example obtain res' where
    2: "runGeneticOptimization 2 smelterCatalog tenBars gaParams 1 alternating = Inr res'"
    and c2: "map clusterId (nodesR res') = [Some 1, Some 0]"
    by (cases "runGeneticOptimization 2 smelterCatalog tenBars gaParams 1 alternating") auto
  have p: "1 \<le> numClusters gaParams" "1 \<le> populationSize gaParams"
    by (simp_all add: gaParams_def)
  from cluster_ids_below_k[of 2 rowLayout keepOrder smelterCatalog tenBars 2 "[]" "[]" 3 res
      2 smelterCatalog tenBars gaParams 1 alternating res'] 1 2 items p validRng_alternating
  have "(\<forall>n\<in>set (nodesR res). \<exists>c. clusterId n = Some c \<and> 0 \<le> c
             \<and> c < min 2 (int (length (filter (\<lambda>n. category n \<noteq> Some ''sink'') (nodesR res))))
             \<and> c < 2)
      \<and> (\<forall>n\<in>set (nodesR res'). \<exists>c. clusterId n = Some c \<and> 0 \<le> c \<and> c < numClusters gaParams)"
    by simp
  with 1 2 items p validRng_alternating c1 c2 show ?thesis by auto
qed

section \<open>What a call leaves in the store\<close>

text \<open>
  Every write of the three functions goes to a cell that the call itself created. For the
  resolver this rests on the references in the map \<open>nodes\<close>: the map is created by the call,
  so every node object it leads to was created by the call too.
\<close>

lemma keeps_refl: "keeps base h h"
  by (simp add: keeps_def)

lemma keeps_trans: "keeps base h h' \<Longrightarrow> keeps base h' h'' \<Longrightarrow> keeps base h h''"
  by (simp add: keeps_def)

lemma keeps_update: "base \<le> a \<Longrightarrow> keeps base h (h[a := c])"
  by (simp add: keeps_def)

lemma keeps_append: "base \<le> length h \<Longrightarrow> keeps base h (h @ cs)"
  by (simp add: keeps_def)

lemma keeps_writeAll: "\<forall>a\<in>set as. base \<le> a \<Longrightarrow> keeps base h (writeAll as cs h)"
proof -
  have "\<forall>(a, c)\<in>set ps. base \<le> a \<Longrightarrow> keeps base h (fold (\<lambda>(a, c) h'. h'[a := c]) ps h)"
    for ps :: "(nat \<times> cell) list"
  proof (induction ps arbitrary: h)
    case Nil
    show ?case by (simp add: keeps_refl)
  next
    case (Cons p ps)
    obtain a c where p: "p = (a, c)" by (cases p)
    from Cons.prems p have a: "base \<le> a" and rest: "\<forall>(a, c)\<in>set ps. base \<le> a" by auto
    from keeps_trans[OF keeps_update[OF a] Cons.IH[OF rest]] p show ?case by simp
  qed
  moreover assume "\<forall>a\<in>set as. base \<le> a"
  then have "\<forall>(a, c)\<in>set (zip as cs). base \<le> a" by (auto dest: set_zip_leftD)
  ultimately show ?thesis by (simp add: writeAll_def)
qed

lemma nodesFresh_update_other:
  assumes "nodesFresh base nodesA h" and "\<And>nm. c \<noteq> NodeMap nm"
  shows "nodesFresh base nodesA (h[a := c])"
  using assms by (cases "a = nodesA")
    (auto simp: nodesFresh_def deref_def split: cell.splits)

lemma nodesFresh_append:
  assumes "nodesFresh base nodesA h" and "\<And>nm. c \<noteq> NodeMap nm"
  shows "nodesFresh base nodesA (h @ [c])"
  using assms by (auto simp: nodesFresh_def deref_def nth_append split: cell.splits)

lemma forEachS_invariant:
  assumes step: "\<And>x h. x \<in> set xs \<Longrightarrow> I h \<Longrightarrow> I (fst (f x h)) \<and> keeps base h (fst (f x h))"
    and "I h"
  shows "I (fst (forEachS f xs h)) \<and> keeps base h (fst (forEachS f xs h))"
  using assms
proof (induction xs arbitrary: h)
  case Nil
  then show ?case by (simp add: keeps_refl)
next
  case (Cons x xs)
  obtain h' r where fx: "f x h = (h', r)" by (cases "f x h")
  from Cons.prems(1)[of x h] Cons.prems(2) fx have 1: "I h'" "keeps base h h'" by auto
  show ?case
  proof (cases r)
    case None
    from Cons.IH[OF _ 1(1)] Cons.prems(1)
    have "I (fst (forEachS f xs h')) \<and> keeps base h' (fst (forEachS f xs h'))" by simp
    with 1 fx None show ?thesis by (auto intro: keeps_trans)
  next
    case (Some e)
    with 1 fx show ?thesis by simp
  qed
qed

lemma visitInputS_frame:
  assumes trav: "\<And>x amt h. nodesFresh base nodesA h \<Longrightarrow>
       nodesFresh base nodesA (fst (trav x amt h)) \<and> keeps base h (fst (trav x amt h))"
    and "base \<le> linksA" and "nodesFresh base nodesA h"
  shows "nodesFresh base nodesA (fst (visitInputS trav linksA itemId ratio input h))
       \<and> keeps base h (fst (visitInputS trav linksA itemId ratio input h))"
proof (cases "\<exists>lm. deref h linksA = Some (NumberMap lm)")
  case True
  then obtain lm where lm: "deref h linksA = Some (NumberMap lm)" by blast
  define h1 where "h1 = h[linksA := NumberMap (AList.update (linkKey (idI input) itemId)
      (orZero (map_of lm (linkKey (idI input) itemId)) + amount_per_minute input * ratio) lm)]"
  have 1: "nodesFresh base nodesA h1" unfolding h1_def
    by (rule nodesFresh_update_other[OF assms(3)]) simp
  have 2: "keeps base h h1" unfolding h1_def by (rule keeps_update[OF assms(2)])
  from trav[OF 1] 2 lm show ?thesis
    by (auto simp: visitInputS_def Let_def h1_def intro: keeps_trans)
next
  case False
  with assms(3) show ?thesis
    by (auto simp: visitInputS_def Let_def keeps_refl split: option.splits cell.splits)
qed

lemma traverseS_frame:
  assumes "base \<le> nodesA" and "base \<le> linksA"
  shows "nodesFresh base nodesA h \<Longrightarrow>
     nodesFresh base nodesA (fst (traverseS depth bA nodesA linksA itemId amt h))
     \<and> keeps base h (fst (traverseS depth bA nodesA linksA itemId amt h))"
proof (induction depth arbitrary: itemId amt h)
  case 0
  then show ?case by (simp add: keeps_refl)
next
  case (Suc depth)
  note fresh = Suc.prems
  show ?case
  proof (cases "readArray asBuilding h bA")
    case None
    with fresh show ?thesis by (simp add: keeps_refl)
  next
    case (Some buildings)
    show ?thesis
    proof (cases "\<exists>nm. deref h nodesA = Some (NodeMap nm)")
      case False
      with fresh Some show ?thesis
        by (auto simp: keeps_refl Let_def split: option.splits cell.splits)
    next
      case True
      then obtain nm where nm: "deref h nodesA = Some (NodeMap nm)" by blast
      define result where "result = findRecipe buildings itemId"
      define ha where "ha = (case map_of nm itemId of
                            Some a \<Rightarrow> (h, a)
                          | None \<Rightarrow>
                              (let (h', a) = alloc (SankeyNodeObj (newNode itemId result)) h
                               in (h'[nodesA := NodeMap (AList.update itemId a nm)], a)))"
      obtain h1 a where h1a: "ha = (h1, a)" by (cases ha)
      have h1: "nodesFresh base nodesA h1 \<and> keeps base h h1 \<and> base \<le> a"
      proof (cases "map_of nm itemId")
        case None
        then have eq: "h1 = (h @ [SankeyNodeObj (newNode itemId result)])
                         [nodesA := NodeMap (AList.update itemId (length h) nm)]"
          and a: "a = length h"
          using h1a by (auto simp: ha_def alloc_def)
        from fresh nm have all: "list_all (\<lambda>(k, a). base \<le> a) nm" and len: "base \<le> length h"
          by (auto simp: nodesFresh_def)
        from all len have "list_all (\<lambda>(k, a). base \<le> a) (AList.update itemId (length h) nm)"
          by (induction nm) (auto simp: list_all_iff)
        then have "nodesFresh base nodesA h1" using len
          by (auto simp: eq nodesFresh_def deref_def split: cell.splits)
        moreover have "keeps base h h1" unfolding eq
          by (rule keeps_trans[OF keeps_append[OF len] keeps_update[OF assms(1)]])
        ultimately show ?thesis using a len by simp
      next
        case (Some a')
        then have "h1 = h" "a = a'" using h1a by (auto simp: ha_def)
        moreover from fresh nm Some have "base \<le> a'"
          by (auto simp: nodesFresh_def list_all_iff dest!: map_of_SomeD)
        ultimately show ?thesis using fresh by (simp add: keeps_refl)
      qed
      have unfold: "traverseS (Suc depth) bA nodesA linksA itemId amt h =
          (case deref h1 a of
             Some (SankeyNodeObj node) \<Rightarrow>
               (let h2 = h1[a := SankeyNodeObj (accumulate amt node)]
                in case result of
                     None \<Rightarrow> (h2, None)
                   | Some (recipe, bId, bName) \<Rightarrow>
                       forEachS
                         (visitInputS (traverseS depth bA nodesA linksA) linksA itemId
                            (amt / amount_per_minute (outputR recipe)))
                         (inputs recipe) h2)
           | _ \<Rightarrow> (h1, Some TypeError))"
        using Some nm h1a unfolding ha_def result_def by (simp add: Let_def)
      show ?thesis
      proof (cases "\<exists>node. deref h1 a = Some (SankeyNodeObj node)")
        case False
        with h1 show ?thesis unfolding unfold
          by (auto split: option.splits cell.splits)
      next
        case True
        then obtain node where node: "deref h1 a = Some (SankeyNodeObj node)" by blast
        define h2 where "h2 = h1[a := SankeyNodeObj (accumulate amt node)]"
        have f2: "nodesFresh base nodesA h2" unfolding h2_def
          by (rule nodesFresh_update_other) (use h1 in auto)
        have k2: "keeps base h h2" unfolding h2_def
          using h1 by (auto intro: keeps_trans keeps_update)
        show ?thesis
        proof (cases result)
          case None
          with f2 k2 node show ?thesis unfolding unfold
            by (simp add: h2_def)
        next
          case (Some r)
          obtain recipe bId bName where r: "r = (recipe, bId, bName)" by (cases r)
          let ?f = "visitInputS (traverseS depth bA nodesA linksA) linksA itemId
                      (amt / amount_per_minute (outputR recipe))"
          have "nodesFresh base nodesA (fst (forEachS ?f (inputs recipe) h2))
              \<and> keeps base h2 (fst (forEachS ?f (inputs recipe) h2))"
          proof (rule forEachS_invariant[where I = "nodesFresh base nodesA"])
            show "nodesFresh base nodesA h2" by (rule f2)
          next
            fix x h'
            assume h': "nodesFresh base nodesA h'"
            have trav: "nodesFresh base nodesA (fst (traverseS depth bA nodesA linksA y q k))
                \<and> keeps base k (fst (traverseS depth bA nodesA linksA y q k))"
              if "nodesFresh base nodesA k" for y q k
              using that by (rule Suc.IH)
            show "nodesFresh base nodesA (fst (?f x h')) \<and> keeps base h' (fst (?f x h'))"
              using trav assms(2) h' by (rule visitInputS_frame)
          qed
          with k2 node Some r show ?thesis unfolding unfold
            by (auto simp: h2_def intro: keeps_trans)
        qed
      qed
    qed
  qed
qed


lemma pushLink_frame:
  assumes "base \<le> linksArrA" and "base \<le> length h"
  shows "base \<le> length (fst (pushLink linksArrA e h)) \<and> keeps base h (fst (pushLink linksArrA e h))"
proof -
  define h' where "h' = h @ [LinkObj (linkOfEntry e)]"
  have k: "keeps base h h'" unfolding h'_def by (rule keeps_append[OF assms(2)])
  have "keeps base h (h'[linksArrA := c])" for c
    by (rule keeps_trans[OF k keeps_update[OF assms(1)]])
  with k assms(2) show ?thesis
    by (auto simp: pushLink_def alloc_def h'_def[symmetric] keeps_def
             split: option.splits cell.splits)
qed

lemma calculateRequirementsS_frame:
  "keeps (length h) h (fst (calculateRequirementsS depth bA tA h))"
proof -
  define base where "base = length h"
  define h3 where "h3 = h @ [NodeMap [], Arr [], NumberMap []]"
  have k3: "keeps base h h3" unfolding h3_def base_def by (rule keeps_append) simp
  have f3: "nodesFresh base base h3"
    by (simp add: nodesFresh_def h3_def base_def deref_def nth_append)
  have unfold: "calculateRequirementsS depth bA tA h =
     (case readArray asTarget h3 tA of
           None \<Rightarrow> (h3, Inl TypeError)
         | Some targets \<Rightarrow>
             (case forEachS (\<lambda>t. traverseS depth bA base (Suc (Suc base)) (idT t) (amount t))
                     targets h3 of
                (h4, Some e) \<Rightarrow> (h4, Inl e)
              | (h4, None) \<Rightarrow>
                  (case (deref h4 base, deref h4 (Suc (Suc base))) of
                     (Some (NodeMap nm), Some (NumberMap lm)) \<Rightarrow>
                       (case forEachS (pushLink (Suc base)) lm h4 of
                          (h5, Some e) \<Rightarrow> (h5, Inl e)
                        | (h5, None) \<Rightarrow> (h5 @ [Arr (map snd nm)], Inr (length h5, Suc base)))
                   | _ \<Rightarrow> (h4, Inl TypeError))))"
    unfolding calculateRequirementsS_def alloc_def Let_def prod.case h3_def base_def
      append_assoc append.simps length_append list.size add_0 add_Suc_right add_0_right
    by (rule refl)
  show ?thesis
  proof (cases "readArray asTarget h3 tA")
    case None
    with k3 show ?thesis unfolding unfold base_def by simp
  next
    case (Some targets)
    obtain h4 r where run: "forEachS (\<lambda>t. traverseS depth bA base (Suc (Suc base)) (idT t) (amount t))
                     targets h3 = (h4, r)"
      by (cases "forEachS (\<lambda>t. traverseS depth bA base (Suc (Suc base)) (idT t) (amount t))
                     targets h3")
    have "nodesFresh base base (fst (forEachS
             (\<lambda>t. traverseS depth bA base (Suc (Suc base)) (idT t) (amount t)) targets h3))
        \<and> keeps base h3 (fst (forEachS
             (\<lambda>t. traverseS depth bA base (Suc (Suc base)) (idT t) (amount t)) targets h3))"
    proof (rule forEachS_invariant[where I = "nodesFresh base base"])
      show "nodesFresh base base h3" by (rule f3)
    next
      fix t k
      assume "nodesFresh base base k"
      then show "nodesFresh base base (fst (traverseS depth bA base (Suc (Suc base)) (idT t) (amount t) k))
          \<and> keeps base k (fst (traverseS depth bA base (Suc (Suc base)) (idT t) (amount t) k))"
        by (intro traverseS_frame) simp_all
    qed
    with run have f4: "nodesFresh base base h4" and "keeps base h3 h4" by simp_all
    with k3 have k4: "keeps base h h4" by (auto intro: keeps_trans)
    from f4 have l4: "base \<le> length h4" by (simp add: nodesFresh_def)
    have push: "keeps base h (fst (forEachS (pushLink (Suc base)) lm h4)) "for lm
    proof -
      have "base \<le> length (fst (forEachS (pushLink (Suc base)) lm h4))
          \<and> keeps base h4 (fst (forEachS (pushLink (Suc base)) lm h4))"
      proof (rule forEachS_invariant[where I = "\<lambda>k :: store. base \<le> length k"])
        show "base \<le> length h4" by (rule l4)
      next
        fix e and k :: store
        assume "base \<le> length k"
        then show "base \<le> length (fst (pushLink (Suc base) e k))
            \<and> keeps base k (fst (pushLink (Suc base) e k))"
          by (intro pushLink_frame) simp_all
      qed
      with k4 show ?thesis by (auto intro: keeps_trans)
    qed
    have app: "keeps base h k \<Longrightarrow> keeps base h (k @ cs)" for k cs
      by (auto simp: keeps_def base_def)
    show ?thesis
    proof (cases r)
      case (Some e)
      with k4 run \<open>readArray asTarget h3 tA = Some targets\<close> show ?thesis
        unfolding unfold base_def[symmetric] by simp
    next
      case None
      show ?thesis
      proof (cases "\<exists>nm lm. deref h4 base = Some (NodeMap nm)
                      \<and> deref h4 (Suc (Suc base)) = Some (NumberMap lm)")
        case False
        with k4 run None \<open>readArray asTarget h3 tA = Some targets\<close> show ?thesis
          unfolding unfold base_def[symmetric]
          by (auto split: option.splits cell.splits)
      next
        case True
        then obtain nm lm where maps: "deref h4 base = Some (NodeMap nm)"
          "deref h4 (Suc (Suc base)) = Some (NumberMap lm)" by blast
        obtain h5 r' where p5: "forEachS (pushLink (Suc base)) lm h4 = (h5, r')"
          by (cases "forEachS (pushLink (Suc base)) lm h4")
        with push[of lm] have k5: "keeps base h h5" by simp
        from k5 app[OF k5] run None maps p5 \<open>readArray asTarget h3 tA = Some targets\<close>
        show ?thesis
          unfolding unfold base_def[symmetric]
          by (cases r') simp_all
      qed
    qed
  qed
qed

lemma keeps_allocAll:
  assumes "keeps base h h1" and "base \<le> length h" and "allocAll cs h1 = (h2, as)"
  shows "keeps base h h2 \<and> (\<forall>a\<in>set as. base \<le> a)"
  using assms by (auto simp: allocAll_def keeps_def)

lemma optimizeLayoutS_frame:
  "keeps (length h) h
     (fst (optimizeLayoutS depth lay shuf bA tA numK splits cons attempts h))"
proof -
  obtain h1 r where run: "calculateRequirementsS depth bA tA h = (h1, r)"
    by (cases "calculateRequirementsS depth bA tA h")
  with calculateRequirementsS_frame[of h depth bA tA] have k1: "keeps (length h) h h1" by simp
  show ?thesis
  proof (cases r)
    case (Inl e)
    with run k1 show ?thesis by (simp add: optimizeLayoutS_def)
  next
    case (Inr addrs)
    obtain na la where addrs: "addrs = (na, la)" by (cases addrs)
    show ?thesis
    proof (cases "\<exists>rawNodes rawLinks. readArray asSankeyNode h1 na = Some rawNodes
                     \<and> readArray asLink h1 la = Some rawLinks")
      case False
      with run Inr addrs k1 show ?thesis
        by (auto simp: optimizeLayoutS_def split: option.splits)
    next
      case True
      then obtain rawNodes rawLinks where raw: "readArray asSankeyNode h1 na = Some rawNodes"
        "readArray asLink h1 la = Some rawLinks" by blast
      obtain h2 nodeAs where a2:
        "allocAll (map MachineNodeObj (map toMachineNode rawNodes)) h1 = (h2, nodeAs)"
        by (cases "allocAll (map MachineNodeObj (map toMachineNode rawNodes)) h1")
      obtain h3 linkAs where a3:
        "allocAll (map LinkObj (map toMachineLink rawLinks)) h2 = (h3, linkAs)"
        by (cases "allocAll (map LinkObj (map toMachineLink rawLinks)) h2")
      from keeps_allocAll[OF k1 _ a2] have k2: "keeps (length h) h h2"
        and fresh: "\<forall>a\<in>set nodeAs. length h \<le> a" by simp_all
      from keeps_allocAll[OF k2 _ a3] have k3: "keeps (length h) h h3" by simp
      have w: "keeps (length h) h k \<Longrightarrow> keeps (length h) h (writeAll nodeAs cs k)" for k cs
        by (rule keeps_trans[OF _ keeps_writeAll[OF fresh]])
      from k3 w run Inr addrs raw a2 a3 show ?thesis
        by (auto simp: optimizeLayoutS_def Let_def split: sum.splits prod.splits)
    qed
  qed
qed

lemma runGeneticOptimizationS_frame:
  "keeps (length h) h (fst (runGeneticOptimizationS depth bA tA params attempts g h))"
proof -
  obtain h1 r where run: "calculateRequirementsS depth bA tA h = (h1, r)"
    by (cases "calculateRequirementsS depth bA tA h")
  with calculateRequirementsS_frame[of h depth bA tA] have k1: "keeps (length h) h h1" by simp
  show ?thesis
  proof (cases r)
    case (Inl e)
    with run k1 show ?thesis by (simp add: runGeneticOptimizationS_def)
  next
    case (Inr addrs)
    obtain na la where addrs: "addrs = (na, la)" by (cases addrs)
    show ?thesis
    proof (cases "\<exists>rawNodes rawLinks. readArray asSankeyNode h1 na = Some rawNodes
                     \<and> readArray asLink h1 la = Some rawLinks")
      case False
      with run Inr addrs k1 show ?thesis
        by (auto simp: runGeneticOptimizationS_def split: option.splits)
    next
      case True
      then obtain rawNodes rawLinks where raw: "readArray asSankeyNode h1 na = Some rawNodes"
        "readArray asLink h1 la = Some rawLinks" by blast
      obtain h2 nodeAs where a2:
        "allocAll (map MachineNodeObj (map toMachineNode rawNodes)) h1 = (h2, nodeAs)"
        by (cases "allocAll (map MachineNodeObj (map toMachineNode rawNodes)) h1")
      obtain h3 linkAs where a3:
        "allocAll (map LinkObj (map toMachineLink rawLinks)) h2 = (h3, linkAs)"
        by (cases "allocAll (map LinkObj (map toMachineLink rawLinks)) h2")
      from keeps_allocAll[OF k1 _ a2] have k2: "keeps (length h) h h2"
        and fresh: "\<forall>a\<in>set nodeAs. length h \<le> a" by simp_all
      from keeps_allocAll[OF k2 _ a3] have k3: "keeps (length h) h h3" by simp
      have w: "keeps (length h) h k \<Longrightarrow> keeps (length h) h (writeAll nodeAs cs k)" for k cs
        by (rule keeps_trans[OF _ keeps_writeAll[OF fresh]])
      from k3 w run Inr addrs raw a2 a3 show ?thesis
        by (auto simp: runGeneticOptimizationS_def Let_def split: sum.splits prod.splits option.splits)
    qed
  qed
qed

text \<open>
  Claim C10. After a call of \<open>calculateRequirements\<close>, of \<open>optimizeLayout\<close> or of
  \<open>runGeneticOptimization\<close>, whether it returned or threw, every object that existed before
  the call is as it was: the store the call leaves behind begins with the store it was
  given. This holds for every store, so in particular for the \<open>buildings\<close> array, every
  building with its recipes, the \<open>targets\<close> array and every target; whatever the call wrote
  is in cells it created.
\<close>

theorem inputs_unmodified:
  "take (length h) (fst (calculateRequirementsS depth bA tA h)) = h
   \<and> take (length h) (fst (optimizeLayoutS depth' lay shuf bA tA numK splits cons attempts h)) = h
   \<and> take (length h) (fst (runGeneticOptimizationS depth'' bA tA params attempts' g h)) = h"
  using calculateRequirementsS_frame[of h depth bA tA]
    optimizeLayoutS_frame[of h depth' lay shuf bA tA numK splits cons attempts]
    runGeneticOptimizationS_frame[of h depth'' bA tA params attempts' g]
  by (simp add: keeps_def)

text \<open>
  The example: the three calls on the store of the smelter catalog return, the resolver
  with its two arrays at the addresses 10 and 5, the optimizers with two new nodes and one
  new link, and the four cells of the catalog and the targets are as before.
\<close>

lemma store_example:
  "snd (calculateRequirementsS 2 1 3 smelterStore) = Inr (10, 5)"
  "map_sum id (\<lambda>(na, la, r). (na, la, map clusterId (nodesR r)))
     (snd (optimizeLayoutS 2 rowLayout keepOrder 1 3 2 [] [] 3 smelterStore))
   = Inr ([11, 12], [13], [Some 0, Some 1])"
  "map_sum id (\<lambda>(na, la, r). (na, la, map clusterId (nodesR r)))
     (snd (runGeneticOptimizationS 2 1 3 gaParams 1 alternating smelterStore))
   = Inr ([11, 12], [13], [Some 1, Some 0])"
  by code_simp+

theorem inputs_unmodified_witness:
  "take 4 (fst (calculateRequirementsS 2 1 3 smelterStore)) = smelterStore
   \<and> take 4 (fst (optimizeLayoutS 2 rowLayout keepOrder 1 3 2 [] [] 3 smelterStore)) = smelterStore
   \<and> take 4 (fst (runGeneticOptimizationS 2 1 3 gaParams 1 alternating smelterStore))
       = smelterStore
   \<and> snd (calculateRequirementsS 2 1 3 smelterStore) = Inr (10, 5)"
proof -
  have "length smelterStore = 4" by (simp add: smelterStore_def)
  with inputs_unmodified[of smelterStore 2 1 3 2 rowLayout keepOrder 2 "[]" "[]" 3
      2 gaParams 1 alternating] store_example(1)
  show ?thesis by simp
qed

section \<open>The store and the values\<close>

text \<open>
  The functions on the store compute what the functions on values compute: started on a
  store that holds a catalog and a target list, \<open>calculateRequirementsS\<close> reaches the
  recursion bound exactly when \<open>calculateRequirements\<close> does, and otherwise returns two
  arrays that hold the nodes and links of its result; the optimizers on the store return the
  value of the optimizers on values. So what is proved above about the values returned
  holds for the calls on the store as well.
\<close>

lemma deref_update:
  "deref (h[a := c]) b = (if b = a \<and> a < length h then Some c else deref h b)"
  by (simp add: deref_def)

lemma deref_append:
  "deref h b = Some c \<Longrightarrow> deref (h @ cs) b = Some c"
  by (auto simp: deref_def nth_append split: if_splits)

lemma deref_append_new: "deref (h @ [c]) (length h) = Some c"
  by (simp add: deref_def)

lemma deref_keeps:
  assumes "keeps base h h'" and "a < base" and "deref h a = Some c"
  shows "deref h' a = Some c"
proof -
  from assms(3) have a: "a < length h" "h ! a = c" by (auto simp: deref_def split: if_splits)
  from assms(1) have "take base h' ! a = take base h ! a" by (simp add: keeps_def)
  with assms(2) have "h' ! a = h ! a" by simp
  with a assms(1) show ?thesis by (simp add: deref_def keeps_def)
qed

lemma those_map_cong:
  assumes "those (map f xs) = Some ys" and "\<And>x. x \<in> set xs \<Longrightarrow> f x \<noteq> None \<Longrightarrow> g x = f x"
  shows "those (map g xs) = Some ys"
  using assms
proof (induction xs arbitrary: ys)
  case Nil
  then show ?case by simp
next
  case (Cons x xs)
  from Cons.prems(1) obtain y ys' where y: "f x = Some y" "those (map f xs) = Some ys'" "ys = y # ys'"
    by (auto split: option.splits)
  from Cons.IH[OF y(2)] Cons.prems(2) have "those (map g xs) = Some ys'" by simp
  moreover from Cons.prems(2)[of x] y(1) have "g x = Some y" by simp
  ultimately show ?case using y(3) by simp
qed

lemma readArray_keeps:
  assumes "readArray f h a = Some xs" and "keeps (length h) h h'"
  shows "readArray f h' a = Some xs"
proof -
  from assms(1) obtain as where as: "deref h a = Some (Arr as)"
    and th: "those (map (\<lambda>b. case deref h b of Some c \<Rightarrow> f c | None \<Rightarrow> None) as) = Some xs"
    by (auto simp: readArray_def split: option.splits cell.splits)
  from as have "a < length h" by (auto simp: deref_def split: if_splits)
  from deref_keeps[OF assms(2) this as] have as': "deref h' a = Some (Arr as)" .
  have "those (map (\<lambda>b. case deref h' b of Some c \<Rightarrow> f c | None \<Rightarrow> None) as) = Some xs"
  proof (rule those_map_cong[OF th])
    fix b
    assume "(case deref h b of Some c \<Rightarrow> f c | None \<Rightarrow> None) \<noteq> None"
    then obtain c where c: "deref h b = Some c" by (auto split: option.splits)
    then have "b < length h" by (auto simp: deref_def split: if_splits)
    from deref_keeps[OF assms(2) this c] c
    show "(case deref h' b of Some c \<Rightarrow> f c | None \<Rightarrow> None)
        = (case deref h b of Some c \<Rightarrow> f c | None \<Rightarrow> None)" by simp
  qed
  with as' show ?thesis by (simp add: readArray_def)
qed

lemma nodeRel_map_of_None:
  "list_all2 (nodeRel h) nm ns \<Longrightarrow> map_of nm x = None \<longleftrightarrow> map_of ns x = None"
  by (induction rule: list_all2_induct) (auto simp: nodeRel_def)

lemma nodeRel_map_of_Some:
  "list_all2 (nodeRel h) nm ns \<Longrightarrow> map_of nm x = Some a
   \<Longrightarrow> \<exists>n. map_of ns x = Some n \<and> deref h a = Some (SankeyNodeObj n)"
  by (induction rule: list_all2_induct) (auto simp: nodeRel_def split: if_splits)

lemma nodeRel_write_other:
  "list_all2 (nodeRel h) nm ns \<Longrightarrow> a \<notin> snd ` set nm
   \<Longrightarrow> list_all2 (nodeRel (h[a := c])) nm ns"
  by (induction rule: list_all2_induct) (auto simp: nodeRel_def deref_update)

lemma nodeRel_append:
  "list_all2 (nodeRel h) nm ns \<Longrightarrow> list_all2 (nodeRel (h @ cs)) nm ns"
  by (induction rule: list_all2_induct) (auto simp: nodeRel_def deref_append)

lemma nodeRel_types:
  assumes "list_all2 (nodeRel h) nm ns" and "deref h a = Some c" and "\<And>n. c \<noteq> SankeyNodeObj n"
  shows "a \<notin> snd ` set nm"
  using assms by (induction rule: list_all2_induct) (auto simp: nodeRel_def)

lemma nodeRel_write_node:
  "list_all2 (nodeRel h) nm ns \<Longrightarrow> distinct (map snd nm) \<Longrightarrow> map_of nm x = Some a
   \<Longrightarrow> list_all2 (nodeRel (h[a := SankeyNodeObj n'])) nm (AList.update x n' ns)"
proof (induction rule: list_all2_induct)
  case Nil
  then show ?case by simp
next
  case (Cons p nm q ns)
  obtain k a0 where p: "p = (k, a0)" by (cases p)
  obtain k' n0 where q: "q = (k', n0)" by (cases q)
  from Cons.hyps(1) p q have kk: "k' = k" and d0: "deref h a0 = Some (SankeyNodeObj n0)"
    by (auto simp: nodeRel_def)
  from Cons.prems(1) p have notin: "a0 \<notin> snd ` set nm" and dist: "distinct (map snd nm)" by auto
  show ?case
  proof (cases "k = x")
    case True
    with Cons.prems(2) p have a: "a = a0" by simp
    from d0 have "a0 < length h" by (auto simp: deref_def split: if_splits)
    then have "nodeRel (h[a0 := SankeyNodeObj n']) (x, a0) (x, n')"
      by (simp add: nodeRel_def deref_update)
    moreover from nodeRel_write_other[OF Cons.hyps(2) notin]
    have "list_all2 (nodeRel (h[a0 := SankeyNodeObj n'])) nm ns" .
    ultimately show ?thesis using True p q kk a by simp
  next
    case False
    with Cons.prems(2) p have m: "map_of nm x = Some a" by simp
    then have "a \<in> snd ` set nm" by (force dest: map_of_SomeD)
    with notin have ne: "a0 \<noteq> a" by auto
    with d0 have "nodeRel (h[a := SankeyNodeObj n']) (k, a0) (k, n0)"
      by (simp add: nodeRel_def deref_update)
    with Cons.IH[OF dist m] False p q kk show ?thesis by simp
  qed
qed

lemma update_new_key: "map_of xs k = None \<Longrightarrow> AList.update k v xs = xs @ [(k, v)]"
  by (induction xs) (auto split: if_splits)


lemma forEach_agrees:
  assumes "\<And>x h st. x \<in> set xs \<Longrightarrow> R h st \<Longrightarrow> agrees R (f x st) (fS x h)"
    and "R h st"
  shows "agrees R (forEachM f xs st) (forEachS fS xs h)"
  using assms
proof (induction xs arbitrary: h st)
  case Nil
  then show ?case by (simp add: agrees_def)
next
  case (Cons x xs)
  from Cons.prems(1)[of x h st] Cons.prems(2) have 1: "agrees R (f x st) (fS x h)" by simp
  obtain h' r where fS: "fS x h = (h', r)" by (cases "fS x h")
  show ?case
  proof (cases "f x st")
    case None
    with 1 fS show ?thesis by (simp add: agrees_def)
  next
    case (Some st')
    with 1 fS have r: "r = None" and R': "R h' st'" by (simp_all add: agrees_def)
    from Cons.IH[OF _ R'] Cons.prems(1)
    have "agrees R (forEachM f xs st') (forEachS fS xs h')" by simp
    with Some fS r show ?thesis by simp
  qed
qed

lemma represents_enter:
  assumes rep: "represents h0 nodesA linksA arrA h st"
    and nm: "deref h nodesA = Some (NodeMap nm)"
    and bound: "length h0 \<le> nodesA"
    and ha: "(case map_of nm x of
                Some a \<Rightarrow> (h, a)
              | None \<Rightarrow>
                  (let (h', a) = alloc (SankeyNodeObj (newNode x result)) h
                   in (h'[nodesA := NodeMap (AList.update x a nm)], a))) = (h1, a)"
    and node: "node = (case map_of (nodesMap st) x of Some nd \<Rightarrow> nd | None \<Rightarrow> newNode x result)"
  shows "deref h1 a = Some (SankeyNodeObj node)
       \<and> represents h0 nodesA linksA arrA (h1[a := SankeyNodeObj (accumulate amt node)])
           (st\<lparr>nodesMap := AList.update x (accumulate amt node) (nodesMap st)\<rparr>)"
proof -
  from rep nm have k: "keeps (length h0) h0 h" and arr: "deref h arrA = Some (Arr [])"
    and lk: "deref h linksA = Some (NumberMap (linksMap st))"
    and dist: "distinct (map snd nm)" and fresh: "list_all (\<lambda>(k, a). length h0 \<le> a) nm"
    and rel: "list_all2 (nodeRel h) nm (nodesMap st)"
    by (auto simp: represents_def)
  have nA: "nodesA \<notin> snd ` set nm" by (rule nodeRel_types[OF rel nm]) simp
  have nl: "nodesA < length h" using nm by (auto simp: deref_def split: if_splits)
  show ?thesis
  proof (cases "map_of nm x")
    case (Some a')
    with ha have h1: "h1 = h" and a: "a = a'" by simp_all
    from nodeRel_map_of_Some[OF rel Some] obtain n where n: "map_of (nodesMap st) x = Some n"
      "deref h a' = Some (SankeyNodeObj n)" by blast
    with node have node': "node = n" by simp
    from Some fresh have ge: "length h0 \<le> a'" by (auto simp: list_all_iff dest!: map_of_SomeD)
    let ?h2 = "h[a' := SankeyNodeObj (accumulate amt n)]"
    have "keeps (length h0) h0 ?h2" by (rule keeps_trans[OF k keeps_update[OF ge]])
    moreover from arr n(2) have "deref ?h2 arrA = Some (Arr [])" by (auto simp: deref_update)
    moreover from lk n(2) have "deref ?h2 linksA = Some (NumberMap (linksMap st))"
      by (auto simp: deref_update)
    moreover from nm n(2) have "deref ?h2 nodesA = Some (NodeMap nm)" by (auto simp: deref_update)
    moreover have "list_all2 (nodeRel ?h2) nm (AList.update x (accumulate amt n) (nodesMap st))"
      by (rule nodeRel_write_node[OF rel dist Some])
    ultimately show ?thesis using n(2) h1 a node' dist fresh by (simp add: represents_def)
  next
    case None
    let ?new = "SankeyNodeObj (newNode x result)"
    let ?nm' = "nm @ [(x, length h)]"
    from None ha have h1: "h1 = (h @ [?new])[nodesA := NodeMap ?nm']" and a: "a = length h"
      by (auto simp: alloc_def update_new_key)
    from None nodeRel_map_of_None[OF rel] have pn: "map_of (nodesMap st) x = None" by simp
    with node have node': "node = newNode x result" by simp
    from k have len: "length h0 \<le> length h" by (simp add: keeps_def)
    have d1: "deref h1 a = Some ?new" using nl by (simp add: h1 a deref_def)
    let ?acc = "SankeyNodeObj (accumulate amt (newNode x result))"
    let ?h2 = "h1[a := ?acc]"
    have old: "b < length h \<Longrightarrow> b \<noteq> nodesA \<Longrightarrow> deref ?h2 b = deref h b" for b
      by (simp add: h1 a deref_def nth_append)
    have arrl: "arrA < length h" "arrA \<noteq> nodesA" using arr nm
      by (auto simp: deref_def split: if_splits)
    have lkl: "linksA < length h" "linksA \<noteq> nodesA" using lk nm
      by (auto simp: deref_def split: if_splits)
    have "keeps (length h0) h0 ?h2"
    proof -
      have "keeps (length h0) h (h @ [?new])" by (rule keeps_append[OF len])
      moreover have "keeps (length h0) (h @ [?new]) h1" unfolding h1
        by (rule keeps_update[OF bound])
      moreover have "keeps (length h0) h1 ?h2" by (rule keeps_update) (simp add: a len)
      ultimately show ?thesis using k by (blast intro: keeps_trans)
    qed
    moreover have "deref ?h2 arrA = Some (Arr [])" using old[OF arrl] arr by simp
    moreover have "deref ?h2 linksA = Some (NumberMap (linksMap st))" using old[OF lkl] lk by simp
    moreover have "deref ?h2 nodesA = Some (NodeMap ?nm')" using nl by (simp add: h1 a deref_def)
    moreover have addr: "b \<in> snd ` set nm \<Longrightarrow> b < length h" for b
      using rel by (induction rule: list_all2_induct)
        (auto simp: nodeRel_def deref_def split: if_splits)
    then have "distinct (map snd ?nm')" using dist by auto
    moreover have "list_all (\<lambda>(k, a). length h0 \<le> a) ?nm'" using fresh len by simp
    moreover have "list_all2 (nodeRel ?h2) ?nm'
        (AList.update x (accumulate amt (newNode x result)) (nodesMap st))"
    proof -
      have "length h \<notin> snd ` set nm" using addr by auto
      with nA have "list_all2 (nodeRel ?h2) nm (nodesMap st)" unfolding h1 a
        by (intro nodeRel_write_other nodeRel_append rel)
      moreover have "nodeRel ?h2 (x, length h) (x, accumulate amt (newNode x result))"
        using nl by (simp add: nodeRel_def h1 a deref_def)
      ultimately show ?thesis
        by (simp add: update_new_key[OF pn] list_all2_appendI)
    qed
    ultimately show ?thesis using d1 node' by (simp add: represents_def)
  qed
qed

lemma represents_addLink:
  assumes rep: "represents h0 nodesA linksA arrA h st" and bound: "length h0 \<le> linksA"
    and that: "key = linkKey inputId itemId"
  shows "represents h0 nodesA linksA arrA
           (h[linksA := NumberMap (AList.update key
                (orZero (map_of (linksMap st) key) + v) (linksMap st))])
           (addLink inputId itemId v st)"
proof -
  from rep obtain nm where k: "keeps (length h0) h0 h" and arr: "deref h arrA = Some (Arr [])"
    and lk: "deref h linksA = Some (NumberMap (linksMap st))"
    and nm: "deref h nodesA = Some (NodeMap nm)"
    and dist: "distinct (map snd nm)" and fresh: "list_all (\<lambda>(k, a). length h0 \<le> a) nm"
    and rel: "list_all2 (nodeRel h) nm (nodesMap st)"
    by (auto simp: represents_def)
  have nA: "linksA \<notin> snd ` set nm" by (rule nodeRel_types[OF rel lk]) simp
  let ?c = "NumberMap (AList.update key (orZero (map_of (linksMap st) key) + v) (linksMap st))"
  have "keeps (length h0) h0 (h[linksA := ?c])" by (rule keeps_trans[OF k keeps_update[OF bound]])
  moreover from arr lk have "deref (h[linksA := ?c]) arrA = Some (Arr [])"
    by (auto simp: deref_update)
  moreover from lk have "deref (h[linksA := ?c]) linksA = Some ?c"
    by (auto simp: deref_def split: if_splits)
  moreover from nm lk have "deref (h[linksA := ?c]) nodesA = Some (NodeMap nm)"
    by (auto simp: deref_update)
  moreover have "list_all2 (nodeRel (h[linksA := ?c])) nm (nodesMap st)"
    by (rule nodeRel_write_other[OF rel nA])
  ultimately show ?thesis using dist fresh that by (simp add: represents_def addLink_def)
qed

lemma traverseS_refines:
  assumes cat: "readArray asBuilding h0 bA = Some bs"
    and bounds: "length h0 \<le> nodesA" "length h0 \<le> linksA"
  shows "represents h0 nodesA linksA arrA h st \<Longrightarrow>
     agrees (represents h0 nodesA linksA arrA) (traverse depth bs x amt st)
       (traverseS depth bA nodesA linksA x amt h)"
proof (induction depth arbitrary: x amt h st)
  case 0
  then show ?case by (simp add: agrees_def)
next
  case (Suc depth)
  note rep = Suc.prems
  from rep obtain nm where k: "keeps (length h0) h0 h" and nm: "deref h nodesA = Some (NodeMap nm)"
    by (auto simp: represents_def)
  from readArray_keeps[OF cat k] have cat': "readArray asBuilding h bA = Some bs" .
  define result where "result = findRecipe bs x"
  define ha where "ha = (case map_of nm x of
                Some a \<Rightarrow> (h, a)
              | None \<Rightarrow>
                  (let (h', a) = alloc (SankeyNodeObj (newNode x result)) h
                   in (h'[nodesA := NodeMap (AList.update x a nm)], a)))"
  obtain h1 a where h1a: "ha = (h1, a)" by (cases ha)
  define node where "node = (case map_of (nodesMap st) x of Some nd \<Rightarrow> nd | None \<Rightarrow> newNode x result)"
  define h2 where "h2 = h1[a := SankeyNodeObj (accumulate amt node)]"
  from represents_enter[OF rep nm bounds(1) h1a[unfolded ha_def] node_def, of amt]
  have d1: "deref h1 a = Some (SankeyNodeObj node)"
    and rep2: "represents h0 nodesA linksA arrA h2 (enterNode bs x amt st)"
    unfolding h2_def enterNode_def node_def result_def by simp_all
  have unfoldS: "traverseS (Suc depth) bA nodesA linksA x amt h =
      (case result of
         None \<Rightarrow> (h2, None)
       | Some (recipe, bId, bName) \<Rightarrow>
           forEachS
             (visitInputS (traverseS depth bA nodesA linksA) linksA x
                (amt / amount_per_minute (outputR recipe)))
             (inputs recipe) h2)"
    using cat' nm h1a d1 unfolding ha_def result_def h2_def by (simp add: Let_def)
  show ?case
  proof (cases result)
    case None
    with rep2 show ?thesis unfolding unfoldS traverse_unfold
      by (simp add: agrees_def result_def)
  next
    case (Some r)
    obtain recipe bId bName where r: "r = (recipe, bId, bName)" by (cases r)
    let ?ratio = "amt / amount_per_minute (outputR recipe)"
    have "agrees (represents h0 nodesA linksA arrA)
        (forEachM (visitInput (traverse depth bs) x ?ratio) (inputs recipe) (enterNode bs x amt st))
        (forEachS (visitInputS (traverseS depth bA nodesA linksA) linksA x ?ratio)
           (inputs recipe) h2)"
    proof (rule forEach_agrees[where R = "represents h0 nodesA linksA arrA"])
      show "represents h0 nodesA linksA arrA h2 (enterNode bs x amt st)" by (rule rep2)
    next
      fix input :: ItemRate and k s
      assume ks: "represents h0 nodesA linksA arrA k s"
      then have lk: "deref k linksA = Some (NumberMap (linksMap s))" by (simp add: represents_def)
      from represents_addLink[OF ks bounds(2) refl, of "idI input" x "amount_per_minute input * ?ratio"]
      have "agrees (represents h0 nodesA linksA arrA)
          (traverse depth bs (idI input) (amount_per_minute input * ?ratio)
             (addLink (idI input) x (amount_per_minute input * ?ratio) s))
          (traverseS depth bA nodesA linksA (idI input) (amount_per_minute input * ?ratio)
             (k[linksA := NumberMap (AList.update (linkKey (idI input) x)
                (orZero (map_of (linksMap s) (linkKey (idI input) x))
                   + amount_per_minute input * ?ratio) (linksMap s))]))"
        by (rule Suc.IH)
      then show "agrees (represents h0 nodesA linksA arrA)
          (visitInput (traverse depth bs) x ?ratio input s)
          (visitInputS (traverseS depth bA nodesA linksA) linksA x ?ratio input k)"
        by (simp add: visitInput_unfold visitInputS_def Let_def lk)
    qed
    with Some r show ?thesis unfolding unfoldS traverse_unfold
      by (simp add: result_def)
  qed
qed


lemma those_Some_iff:
  "those (map f as) = Some ys \<longleftrightarrow> list_all2 (\<lambda>a y. f a = Some y) as ys"
proof (induction as arbitrary: ys)
  case Nil
  then show ?case by auto
next
  case (Cons a as)
  show ?case
  proof (cases "f a")
    case None
    then show ?thesis by (auto simp: list_all2_Cons1)
  next
    case (Some y)
    then show ?thesis using Cons.IH by (cases "those (map f as)") (auto simp: list_all2_Cons1)
  qed
qed

lemma readArray_iff:
  "readArray f h a = Some xs \<longleftrightarrow>
     (\<exists>as. deref h a = Some (Arr as)
        \<and> list_all2 (\<lambda>b x. \<exists>c. deref h b = Some c \<and> f c = Some x) as xs)"
proof -
  have eq: "((case deref h b of Some c \<Rightarrow> f c | None \<Rightarrow> None) = Some x)
      = (\<exists>c. deref h b = Some c \<and> f c = Some x)" for b x
    by (cases "deref h b") auto
  show ?thesis
    by (cases "deref h a"; cases "the (deref h a)")
       (auto simp: readArray_def those_Some_iff eq)
qed

lemma pushLink_loop:
  assumes "deref k arrA = Some (Arr ls)"
    and "list_all2 (\<lambda>b l. deref k b = Some (LinkObj l)) ls acc"
  shows "\<exists>k' ls'. forEachS (pushLink arrA) es k = (k', None)
       \<and> deref k' arrA = Some (Arr ls')
       \<and> list_all2 (\<lambda>b l. deref k' b = Some (LinkObj l)) ls' (acc @ map linkOfEntry es)
       \<and> (\<forall>b c. deref k b = Some c \<longrightarrow> b \<noteq> arrA \<longrightarrow> deref k' b = Some c)"
  using assms
proof (induction es arbitrary: k ls acc)
  case Nil
  then show ?case by simp
next
  case (Cons e es)
  define k1 where "k1 = (k @ [LinkObj (linkOfEntry e)])[arrA := Arr (ls @ [length k])]"
  from Cons.prems(1) have al: "arrA < length k" by (auto simp: deref_def split: if_splits)
  have step: "pushLink arrA e k = (k1, None)"
    using Cons.prems(1) by (simp add: pushLink_def alloc_def deref_append k1_def)
  have keep: "deref k1 b = Some c" if "deref k b = Some c" "b \<noteq> arrA" for b c
    using that by (auto simp: k1_def deref_def nth_append split: if_splits)
  have d1: "deref k1 arrA = Some (Arr (ls @ [length k]))"
    using al by (simp add: k1_def deref_def)
  have "list_all2 (\<lambda>b l. deref k1 b = Some (LinkObj l)) ls acc"
  proof (rule list_all2_mono[OF Cons.prems(2)])
    fix b l
    assume b: "deref k b = Some (LinkObj l)"
    with Cons.prems(1) have "b \<noteq> arrA" by auto
    with b show "deref k1 b = Some (LinkObj l)" by (rule keep)
  qed
  moreover have "deref k1 (length k) = Some (LinkObj (linkOfEntry e))"
    using al by (simp add: k1_def deref_def)
  ultimately have l1: "list_all2 (\<lambda>b l. deref k1 b = Some (LinkObj l)) (ls @ [length k])
      (acc @ [linkOfEntry e])"
    by (simp add: list_all2_appendI)
  from Cons.IH[OF d1 l1] obtain k' ls' where
    run: "forEachS (pushLink arrA) es k1 = (k', None)"
    and d': "deref k' arrA = Some (Arr ls')"
    and l': "list_all2 (\<lambda>b l. deref k' b = Some (LinkObj l)) ls'
               ((acc @ [linkOfEntry e]) @ map linkOfEntry es)"
    and keep': "\<forall>b c. deref k1 b = Some c \<longrightarrow> b \<noteq> arrA \<longrightarrow> deref k' b = Some c"
    by blast
  from keep keep' have "\<forall>b c. deref k b = Some c \<longrightarrow> b \<noteq> arrA \<longrightarrow> deref k' b = Some c"
    by blast
  with run d' l' step show ?case by simp
qed

lemma calculateRequirementsS_refines:
  assumes cat: "readArray asBuilding h bA = Some bs"
    and tgs: "readArray asTarget h tA = Some ts"
  shows "case calculateRequirements depth bs ts of
           None \<Rightarrow> snd (calculateRequirementsS depth bA tA h) = Inl RecursionLimit
         | Some res \<Rightarrow>
             (\<exists>na la. snd (calculateRequirementsS depth bA tA h) = Inr (na, la)
                \<and> readArray asSankeyNode (fst (calculateRequirementsS depth bA tA h)) na
                    = Some (nodes res)
                \<and> readArray asLink (fst (calculateRequirementsS depth bA tA h)) la
                    = Some (links res))"
proof -
  define base where "base = length h"
  define h3 where "h3 = h @ [NodeMap [], Arr [], NumberMap []]"
  let ?R = "represents h base (Suc (Suc base)) (Suc base)"
  let ?run = "forEachS (\<lambda>t. traverseS depth bA base (Suc (Suc base)) (idT t) (amount t)) ts h3"
  have k3: "keeps (length h) h h3" unfolding h3_def by (rule keeps_append) simp
  have r3: "?R h3 emptyState"
    using k3 by (simp add: represents_def emptyState_def h3_def base_def deref_def nth_append)
  from readArray_keeps[OF tgs k3] have tgs3: "readArray asTarget h3 tA = Some ts" .
  have unfold: "calculateRequirementsS depth bA tA h =
     (case ?run of
        (h4, Some e) \<Rightarrow> (h4, Inl e)
      | (h4, None) \<Rightarrow>
          (case (deref h4 base, deref h4 (Suc (Suc base))) of
             (Some (NodeMap nm), Some (NumberMap lm)) \<Rightarrow>
               (case forEachS (pushLink (Suc base)) lm h4 of
                  (h5, Some e) \<Rightarrow> (h5, Inl e)
                | (h5, None) \<Rightarrow> (h5 @ [Arr (map snd nm)], Inr (length h5, Suc base)))
           | _ \<Rightarrow> (h4, Inl TypeError)))"
    using tgs3
    unfolding calculateRequirementsS_def alloc_def Let_def prod.case h3_def base_def
      append_assoc append.simps length_append list.size add_0 add_Suc_right add_0_right
    by simp
  have ag: "agrees ?R (resolveTargets depth bs ts) ?run"
    unfolding resolveTargets_def
  proof (rule forEach_agrees[where R = ?R])
    show "?R h3 emptyState" by (rule r3)
  next
    fix t :: Target and k st
    assume "?R k st"
    then show "agrees ?R (traverse depth bs (idT t) (amount t) st)
        (traverseS depth bA base (Suc (Suc base)) (idT t) (amount t) k)"
      by (intro traverseS_refines[OF cat]) (simp_all add: base_def)
  qed
  obtain h4 r where run: "?run = (h4, r)" by (cases ?run)
  show ?thesis
  proof (cases "resolveTargets depth bs ts")
    case None
    with ag run have "r = Some RecursionLimit" by (simp add: agrees_def)
    with None run show ?thesis unfolding unfold by (simp add: calculateRequirements_def)
  next
    case (Some st)
    with ag run have r: "r = None" and rep: "?R h4 st" by (simp_all add: agrees_def)
    from rep obtain nm where arr: "deref h4 (Suc base) = Some (Arr [])"
      and lk: "deref h4 (Suc (Suc base)) = Some (NumberMap (linksMap st))"
      and nm: "deref h4 base = Some (NodeMap nm)"
      and rel: "list_all2 (nodeRel h4) nm (nodesMap st)"
      by (auto simp: represents_def)
    from pushLink_loop[OF arr, of "[]" "linksMap st"] obtain h5 ls' where
      push: "forEachS (pushLink (Suc base)) (linksMap st) h4 = (h5, None)"
      and d5: "deref h5 (Suc base) = Some (Arr ls')"
      and l5: "list_all2 (\<lambda>b l. deref h5 b = Some (LinkObj l)) ls' (map linkOfEntry (linksMap st))"
      and keep: "\<forall>b c. deref h4 b = Some c \<longrightarrow> b \<noteq> Suc base \<longrightarrow> deref h5 b = Some c"
      by auto
    let ?h6 = "h5 @ [Arr (map snd nm)]"
    have res: "calculateRequirementsS depth bA tA h = (?h6, Inr (length h5, Suc base))"
      unfolding unfold using run r nm lk push by simp
    have gen: "list_all2 (nodeRel h4) xs ys \<Longrightarrow>
        list_all2 (\<lambda>b n. \<exists>c. deref (h5 @ cs) b = Some c \<and> asSankeyNode c = Some n)
          (map snd xs) (map snd ys)" for xs ys cs
    proof (induction rule: list_all2_induct)
      case Nil
      show ?case by simp
    next
      case (Cons p nm' q ns')
      from Cons.hyps(1) have d: "deref h4 (snd p) = Some (SankeyNodeObj (snd q))"
        by (simp add: nodeRel_def)
      with arr have "snd p \<noteq> Suc base" by auto
      with keep d have "deref h5 (snd p) = Some (SankeyNodeObj (snd q))" by blast
      then have "deref (h5 @ cs) (snd p) = Some (SankeyNodeObj (snd q))" by (rule deref_append)
      with Cons.IH show ?case by (simp add: asSankeyNode_def)
    qed
    from gen[OF rel]
    have "list_all2 (\<lambda>b n. \<exists>c. deref ?h6 b = Some c \<and> asSankeyNode c = Some n)
            (map snd nm) (map snd (nodesMap st))" .
    then have nodes: "readArray asSankeyNode ?h6 (length h5) = Some (map snd (nodesMap st))"
      by (auto simp: readArray_iff deref_append_new)
    have "list_all2 (\<lambda>b l. \<exists>c. deref ?h6 b = Some c \<and> asLink c = Some l)
            ls' (map linkOfEntry (linksMap st))"
      by (rule list_all2_mono[OF l5]) (auto simp: asLink_def dest: deref_append)
    with d5 have links: "readArray asLink ?h6 (Suc base) = Some (map linkOfEntry (linksMap st))"
      by (auto simp: readArray_iff dest: deref_append)
    from Some nodes links show ?thesis unfolding res
      by (simp add: calculateRequirements_def)
  qed
qed

lemma optimizeLayoutS_refines:
  assumes "readArray asBuilding h bA = Some bs" and "readArray asTarget h tA = Some ts"
  shows "map_sum id (snd \<circ> snd)
           (snd (optimizeLayoutS depth lay shuf bA tA numK splits cons attempts h))
         = optimizeLayout depth lay shuf bs ts numK splits cons attempts"
proof -
  obtain h1 r where run: "calculateRequirementsS depth bA tA h = (h1, r)"
    by (cases "calculateRequirementsS depth bA tA h")
  show ?thesis
  proof (cases "calculateRequirements depth bs ts")
    case None
    with calculateRequirementsS_refines[OF assms, of depth] run
    show ?thesis by (simp add: optimizeLayoutS_def optimizeLayout_def)
  next
    case (Some raw)
    with calculateRequirementsS_refines[OF assms, of depth] run obtain na la
      where "r = Inr (na, la)" "readArray asSankeyNode h1 na = Some (nodes raw)"
        "readArray asLink h1 la = Some (links raw)" by auto
    with Some run show ?thesis
      by (simp add: optimizeLayoutS_def optimizeLayout_def Let_def allocAll_def
               split: sum.splits prod.splits)
  qed
qed

lemma runGeneticOptimizationS_refines:
  assumes "readArray asBuilding h bA = Some bs" and "readArray asTarget h tA = Some ts"
  shows "map_sum id (snd \<circ> snd)
           (snd (runGeneticOptimizationS depth bA tA params attempts g h))
         = runGeneticOptimization depth bs ts params attempts g"
proof -
  obtain h1 r where run: "calculateRequirementsS depth bA tA h = (h1, r)"
    by (cases "calculateRequirementsS depth bA tA h")
  show ?thesis
  proof (cases "calculateRequirements depth bs ts")
    case None
    with calculateRequirementsS_refines[OF assms, of depth] run
    show ?thesis by (simp add: runGeneticOptimizationS_def runGeneticOptimization_def)
  next
    case (Some raw)
    with calculateRequirementsS_refines[OF assms, of depth] run obtain na la
      where "r = Inr (na, la)" "readArray asSankeyNode h1 na = Some (nodes raw)"
        "readArray asLink h1 la = Some (links raw)" by auto
    with Some run show ?thesis
      by (simp add: runGeneticOptimizationS_def runGeneticOptimization_def Let_def allocAll_def
               split: sum.splits prod.splits option.splits)
  qed
qed


end
